theory Spec2Isabelle
  imports Main
begin

section \<open>Rectangular K2-trees (class KrKcTree of StaticBasicRectangularTree.hpp)\<close>

text \<open>
  The embedding follows the C++ class member by member. Values of type \<open>size_type\<close> are
  natural numbers (no wrap-around is modelled), a \<open>std::vector\<close> is a list, the packed
  bit vector \<open>T_\<close> is a \<open>bool list\<close>. Member functions take the object as their first
  argument and return the updated object where they mutate it. A function returns
  \<open>None\<close> where the C++ code reads a vector out of range or never returns; the arities
  \<open>kr_\<close> and \<open>kc_\<close> are at least 2 in every statement, so that no division by zero
  occurs. The element type \<open>E\<close> is a type variable; where the code converts an element to
  \<open>bool\<close> the model compares it with \<open>0\<close>.
\<close>

subsection \<open>Collaborators that are not part of the class\<close>

text \<open>Modelled from the spec: the rank index \<open>R_\<close> (class \<open>rank_type\<close>, not in the
  source file); \<open>rank1(pos)\<close> is the number of 1-bits in \<open>T[0..pos)\<close>.\<close>

definition rank :: "bool list \<Rightarrow> nat \<Rightarrow> nat" where
  "rank T pos = length (filter (\<lambda>b. b) (take pos T))"

text \<open>Modelled from the spec: the helper \<open>logK\<close> of Utility.hpp (not in the source file),
  the integer logarithm rounded up: the least \<open>e\<close> with \<open>n \<le> k ^ e\<close>.\<close>

function logK_from :: "nat \<Rightarrow> nat \<Rightarrow> nat \<Rightarrow> nat \<Rightarrow> nat" where
  "logK_from n k e acc =
     (if n \<le> acc \<or> k < 2 \<or> acc = 0 then e else logK_from n k (Suc e) (acc * k))"
  by pat_completeness auto
termination
proof (relation "measure (\<lambda>(n, k, e, acc). n - acc)")
  show "wf (measure (\<lambda>(n, k, e, acc). n - acc))" by simp
next
  fix n k e acc :: nat
  assume a: "\<not> (n \<le> acc \<or> k < 2 \<or> acc = 0)"
  then have "acc * 2 \<le> acc * k" by simp
  with a have "acc < acc * k" by linarith
  moreover from a have "acc < n" by simp
  ultimately have "n - acc * k < n - acc" by linarith
  then show "((n, k, Suc e, acc * k), (n, k, e, acc)) \<in> measure (\<lambda>(n, k, e, acc). n - acc)"
    by simp
qed

definition logK :: "nat \<Rightarrow> nat \<Rightarrow> nat" where
  "logK n k = logK_from n k 0 1"

text \<open>Modelled from the spec: the helpers \<open>isAll\<close> ("all equal to null?") and
  \<open>isAllZero\<close> ("all zero?") of Utility.hpp (not in the source file).\<close>

definition isAll :: "'e list \<Rightarrow> 'e \<Rightarrow> bool" where
  "isAll C v = list_all (\<lambda>x. x = v) C"

definition isAllZero :: "bool list \<Rightarrow> bool" where
  "isAllZero C = list_all (\<lambda>b. \<not> b) C"

text \<open>\<open>std::to_string\<close> on an unsigned integer: its decimal digits.\<close>

fun to_string :: "nat \<Rightarrow> string" where
  "to_string n =
     (if n < 10 then [char_of (48 + n)]
      else to_string (n div 10) @ [char_of (48 + n mod 10)])"

declare to_string.simps [simp del]

text \<open>Reading a vector: \<open>None\<close> out of range.\<close>

definition nth_opt :: "'a list \<Rightarrow> nat \<Rightarrow> 'a option" where
  "nth_opt xs i = (if i < length xs then Some (xs ! i) else None)"

text \<open>A \<open>for\<close> loop over the values \<open>xs\<close> of its counter, threading the variables the
  body changes; the loop has no result as soon as one run of the body has none.\<close>

primrec for_loop :: "'a list \<Rightarrow> ('a \<Rightarrow> 's \<Rightarrow> 's option) \<Rightarrow> 's \<Rightarrow> 's option" where
  "for_loop [] body s = Some s"
| "for_loop (x # xs) body s = Option.bind (body x s) (for_loop xs body)"

lemma for_loop_mono [partial_function_mono]:
  assumes "\<And>x s. mono_option (\<lambda>f. body f x s)"
  shows "mono_option (\<lambda>f. for_loop xs (body f) s)"
proof (induction xs arbitrary: s)
  case Nil
  show ?case by (simp add: option.const_mono)
next
  case (Cons x xs)
  show ?case
    unfolding for_loop.simps
    by (rule bind_mono) (rule assms, rule Cons.IH)
qed

subsection \<open>The object\<close>

record 'e KrKcTree =
  T_of :: "bool list"
  L_of :: "'e list"
  h_of :: nat
  kr_of :: nat
  kc_of :: nat
  numRows_of :: nat
  numCols_of :: nat
  null_of :: 'e

subsection \<open>checkParameters\<close>

text \<open>
  In the source the message is built by
  \<^verbatim>\<open>std::string err = std::string() + "Unsuitable parameters! " + ... + "But you gave me: nr = "
     + std::to_string(nr) + ", nc = " = std::to_string(nc) + ", kr = " + ... + " columns.";\<close>
  The operator \<open>+\<close> binds tighter than \<open>=\<close>: the text up to \<open>", nc = "\<close> is a temporary
  string that the right-hand side (from \<open>std::to_string(nc)\<close> on) is assigned to, and
  \<open>err\<close> is initialised with the result of that assignment, which is the right-hand side.
\<close>

definition checkParameters :: "'e KrKcTree \<Rightarrow> nat \<Rightarrow> nat \<Rightarrow> nat \<Rightarrow> nat \<Rightarrow> string + unit" where
  "checkParameters s nr nc kr kc =
     (if numRows_of s \<noteq> nr \<or> numCols_of s \<noteq> nc then
        Inl (to_string nc @ '', kr = '' @ to_string kr @ '' and kc = '' @ to_string kc @
             '' leading to h = '' @ to_string (h_of s) @ '' and '' @ to_string (numRows_of s) @
             '' rows resp. '' @ to_string (numCols_of s) @ '' columns.'')
      else Inr ())"

subsection \<open>Construction from a relation matrix\<close>

text \<open>The entry pushed to a leaf group:
  \<^verbatim>\<open>(((p + i) < mat.size()) && ((q + j) < mat[0].size())) ? mat[p + i][q + j] : null_\<close>\<close>

definition matEntry :: "'e list list \<Rightarrow> 'e \<Rightarrow> nat \<Rightarrow> nat \<Rightarrow> 'e option" where
  "matEntry mat null r c =
     (if r < length mat \<and> c < length (mat ! 0) then nth_opt (mat ! r) c else Some null)"

text \<open>\<open>levels[l - 1].insert(levels[l - 1].end(), C.begin(), C.end())\<close>\<close>

definition append_level :: "bool list list \<Rightarrow> nat \<Rightarrow> bool list \<Rightarrow> bool list list option" where
  "append_level levels i C =
     (if i < length levels then Some (levels[i := levels ! i @ C]) else None)"

text \<open>The two nested loops that fill the group \<open>C\<close> of a leaf-level call.\<close>

definition matrixGroup :: "'e KrKcTree \<Rightarrow> 'e list list \<Rightarrow> nat \<Rightarrow> nat \<Rightarrow> 'e list option" where
  "matrixGroup s mat p q =
     for_loop [0..<kr_of s] (\<lambda>i. for_loop [0..<kc_of s] (\<lambda>j C.
       map_option (\<lambda>v. C @ [v]) (matEntry mat (null_of s) (p + i) (q + j)))) []"

text \<open>The state of \<open>buildFromMatrix\<close>: the group \<open>C\<close> under construction, the level
  buffers and the object (whose \<open>L_\<close> the leaf level appends to).\<close>

partial_function (option) buildFromMatrix ::
  "'e list list \<Rightarrow> nat \<Rightarrow> nat \<Rightarrow> nat \<Rightarrow> nat \<Rightarrow> nat \<Rightarrow> bool list list \<times> 'e KrKcTree
     \<Rightarrow> (bool \<times> bool list list \<times> 'e KrKcTree) option" where
  [code]: "buildFromMatrix mat numRows numCols l p q st =
     (case st of (levels, s) \<Rightarrow>
      if l = h_of s then
        Option.bind (matrixGroup s mat p q)
          (\<lambda>C. if isAll C (null_of s) then Some (False, levels, s)
                else Some (True, levels, s\<lparr>L_of := L_of s @ C\<rparr>))
      else
        Option.bind
          (for_loop [0..<kr_of s] (\<lambda>i. for_loop [0..<kc_of s] (\<lambda>j (C, st').
             Option.bind
               (buildFromMatrix mat (numRows div kr_of s) (numCols div kc_of s) (l + 1)
                  (p + i * (numRows div kr_of s)) (q + j * (numCols div kc_of s)) st')
               (\<lambda>(b, st''). Some (C @ [b], st'')))) ([], levels, s))
          (\<lambda>(C, levels', s').
             if isAllZero C then Some (False, levels', s')
             else map_option (\<lambda>lv. (True, lv, s')) (append_level levels' (l - 1) C)))"

text \<open>The matrix-based constructor. \<open>mat[0]\<close> does not exist for an empty matrix.\<close>

definition finish_T :: "bool list list \<Rightarrow> nat \<Rightarrow> bool list" where
  "finish_T levels n = concat (take n levels)"

definition KrKcTree_matrix :: "'e list list \<Rightarrow> nat \<Rightarrow> nat \<Rightarrow> 'e \<Rightarrow> 'e KrKcTree option" where
  "KrKcTree_matrix mat kr kc null =
     (if mat = [] then None
      else
        let h = max 1 (max (logK (length mat) kr) (logK (length (mat ! 0)) kc));
            s = \<lparr>T_of = [], L_of = [], h_of = h, kr_of = kr, kc_of = kc,
                 numRows_of = kr ^ h, numCols_of = kc ^ h, null_of = null\<rparr>
        in Option.bind
             (buildFromMatrix mat (numRows_of s) (numCols_of s) 1 0 0 (replicate (h - 1) [], s))
             (\<lambda>(b, levels, s'). Some (s'\<lparr>T_of := finish_T levels (h - 1)\<rparr>)))"

text \<open>The windowed matrix-based constructor: \<open>Inl\<close> is the message of the
  \<open>std::runtime_error\<close> that \<open>checkParameters\<close> throws.\<close>

definition KrKcTree_matrix_window ::
  "'e list list \<Rightarrow> nat \<Rightarrow> nat \<Rightarrow> nat \<Rightarrow> nat \<Rightarrow> nat \<Rightarrow> nat \<Rightarrow> 'e \<Rightarrow> (string + 'e KrKcTree) option" where
  "KrKcTree_matrix_window mat x y nr nc kr kc null =
     (let h = max 1 (max (logK nr kr) (logK nc kc));
          s = \<lparr>T_of = [], L_of = [], h_of = h, kr_of = kr, kc_of = kc,
               numRows_of = kr ^ h, numCols_of = kc ^ h, null_of = null\<rparr>
      in case checkParameters s nr nc kr kc of
           Inl err \<Rightarrow> Some (Inl err)
         | Inr _ \<Rightarrow>
             Option.bind
               (buildFromMatrix mat (numRows_of s) (numCols_of s) 1 x y (replicate (h - 1) [], s))
               (\<lambda>(b, levels, s'). Some (Inr (s'\<lparr>T_of := finish_T levels (h - 1)\<rparr>))))"

subsection \<open>getElement\<close>

partial_function (option) get :: "'e KrKcTree \<Rightarrow> nat \<Rightarrow> nat \<Rightarrow> nat \<Rightarrow> nat \<Rightarrow> nat \<Rightarrow> 'e option" where
  [code]: "get s numRows numCols p q z =
     (if z \<ge> length (T_of s) then nth_opt (L_of s) (z - length (T_of s))
      else if T_of s ! z then
        get s (numRows div kr_of s) (numCols div kc_of s)
          (p mod (numRows div kr_of s)) (q mod (numCols div kc_of s))
          (rank (T_of s) (z + 1) * kr_of s * kc_of s
             + (p div (numRows div kr_of s)) * kc_of s + q div (numCols div kc_of s))
      else Some (null_of s))"

definition getInit :: "'e KrKcTree \<Rightarrow> nat \<Rightarrow> nat \<Rightarrow> 'e option" where
  "getInit s p q =
     (if L_of s = [] then Some (null_of s)
      else get s (numRows_of s div kr_of s) (numCols_of s div kc_of s)
             (p mod (numRows_of s div kr_of s)) (q mod (numCols_of s div kc_of s))
             ((p div (numRows_of s div kr_of s)) * kc_of s + q div (numCols_of s div kc_of s)))"

definition getElement :: "'e KrKcTree \<Rightarrow> nat \<Rightarrow> nat \<Rightarrow> 'e option" where
  "getElement s i j = getInit s i j"

subsection \<open>setNull\<close>

partial_function (option) set_cell ::
  "'e KrKcTree \<Rightarrow> nat \<Rightarrow> nat \<Rightarrow> nat \<Rightarrow> nat \<Rightarrow> nat \<Rightarrow> 'e KrKcTree option" where
  [code]: "set_cell s numRows numCols p q z =
     (if z \<ge> length (T_of s) then
        (if z - length (T_of s) < length (L_of s)
         then Some (s\<lparr>L_of := (L_of s)[z - length (T_of s) := null_of s]\<rparr>) else None)
      else if T_of s ! z then
        set_cell s (numRows div kr_of s) (numCols div kc_of s)
          (p mod (numRows div kr_of s)) (q mod (numCols div kc_of s))
          (rank (T_of s) (z + 1) * kr_of s * kc_of s
             + (p div (numRows div kr_of s)) * kc_of s + q div (numCols div kc_of s))
      else Some s)"

definition setInit :: "'e KrKcTree \<Rightarrow> nat \<Rightarrow> nat \<Rightarrow> 'e KrKcTree option" where
  "setInit s p q =
     (if L_of s \<noteq> [] then
        set_cell s (numRows_of s div kr_of s) (numCols_of s div kc_of s)
          (p mod (numRows_of s div kr_of s)) (q mod (numCols_of s div kc_of s))
          ((p div (numRows_of s div kr_of s)) * kc_of s + q div (numCols_of s div kc_of s))
      else Some s)"

definition setNull :: "'e KrKcTree \<Rightarrow> nat \<Rightarrow> nat \<Rightarrow> 'e KrKcTree option" where
  "setNull s i j = setInit s i j"

subsection \<open>getSuccessorPositions\<close>

text \<open>An unsigned subtraction that would wrap around gives an index out of every range.\<close>

definition sub_opt :: "nat \<Rightarrow> nat \<Rightarrow> nat option" where
  "sub_opt a b = (if b \<le> a then Some (a - b) else None)"

text \<open>\<^verbatim>\<open>for (size_type j = 0, newDq = cur.dq; j < kc_; j++, newDq += nc, y++)
    nextLevelQueue.push(SubrowInfo(newDq, y));\<close>
  A \<open>SubrowInfo\<close> is the pair \<open>(dq, z)\<close>; the loop variables are \<open>(newDq, y)\<close>.\<close>

definition pushSubrows ::
  "'e KrKcTree \<Rightarrow> nat \<Rightarrow> nat \<Rightarrow> nat \<Rightarrow> (nat \<times> nat) list \<Rightarrow> (nat \<times> nat) list option" where
  "pushSubrows s nc dq y queue =
     map_option (\<lambda>(newDq, y', queue'). queue')
       (for_loop [0..<kc_of s]
          (\<lambda>j (newDq, y', queue'). Some (newDq + nc, y' + 1, queue' @ [(newDq, y')]))
          (dq, y, queue))"

text \<open>The \<open>while (!queue.empty())\<close> loop of one internal level.\<close>

fun levelPass ::
  "'e KrKcTree \<Rightarrow> nat \<Rightarrow> nat \<Rightarrow> nat \<Rightarrow> (nat \<times> nat) list \<Rightarrow> (nat \<times> nat) list
     \<Rightarrow> (nat \<times> nat) list option" where
  "levelPass s nr nc relP [] nextLevelQueue = Some nextLevelQueue"
| "levelPass s nr nc relP ((dq, z) # queue) nextLevelQueue =
     Option.bind (nth_opt (T_of s) z) (\<lambda>b.
       if b then
         Option.bind
           (pushSubrows s nc dq
              (rank (T_of s) (z + 1) * kr_of s * kc_of s + kc_of s * (relP div nr)) nextLevelQueue)
           (levelPass s nr nc relP queue)
       else levelPass s nr nc relP queue nextLevelQueue)"

text \<open>\<open>for (; nr > 1; relP %= nr, nr /= kr_, nc /= kc_)\<close>; the result is the state after
  the loop.\<close>

partial_function (option) levelLoop ::
  "'e KrKcTree \<Rightarrow> nat \<Rightarrow> nat \<Rightarrow> nat \<Rightarrow> (nat \<times> nat) list
     \<Rightarrow> (nat \<times> nat \<times> nat \<times> (nat \<times> nat) list) option" where
  [code]: "levelLoop s nr nc relP queue =
     (if nr > 1 then
        Option.bind (levelPass s nr nc relP queue [])
          (\<lambda>nextLevelQueue.
             levelLoop s (nr div kr_of s) (nc div kc_of s) (relP mod nr) nextLevelQueue)
      else Some (nr, nc, relP, queue))"

text \<open>The last \<open>while\<close> loop, which reads \<open>L_\<close>.\<close>

definition leafSubrows ::
  "'e KrKcTree \<Rightarrow> nat \<Rightarrow> nat \<Rightarrow> nat \<Rightarrow> nat list \<Rightarrow> nat list option" where
  "leafSubrows s nc dq y succs =
     map_option (\<lambda>(newDq, y', succs'). succs')
       (for_loop [0..<kc_of s]
          (\<lambda>j (newDq, y', succs').
             map_option (\<lambda>v. (newDq + nc, y' + 1,
                               if v \<noteq> null_of s then succs' @ [newDq] else succs'))
               (nth_opt (L_of s) y'))
          (dq, y, succs))"

fun leafPass ::
  "'e KrKcTree \<Rightarrow> nat \<Rightarrow> nat \<Rightarrow> nat \<Rightarrow> (nat \<times> nat) list \<Rightarrow> nat list \<Rightarrow> nat list option" where
  "leafPass s nr nc relP [] succs = Some succs"
| "leafPass s nr nc relP ((dq, z) # queue) succs =
     Option.bind (nth_opt (T_of s) z) (\<lambda>b.
       if b then
         Option.bind
           (sub_opt (rank (T_of s) (z + 1) * kr_of s * kc_of s + kc_of s * (relP div nr))
              (length (T_of s)))
           (\<lambda>y. Option.bind (leafSubrows s nc dq y succs) (leafPass s nr nc relP queue))
       else leafPass s nr nc relP queue succs)"

definition allSuccessorPositionsIterative :: "'e KrKcTree \<Rightarrow> nat list \<Rightarrow> nat \<Rightarrow> nat list option" where
  "allSuccessorPositionsIterative s succs p =
     (if L_of s = [] then Some succs
      else if length (T_of s) = 0 then
        for_loop [0..<numCols_of s]
          (\<lambda>i succs'. map_option (\<lambda>v. if v \<noteq> null_of s then succs' @ [i] else succs')
                         (nth_opt (L_of s) (p * numCols_of s + i)))
          succs
      else
        let nr = numRows_of s div kr_of s;
            nc = numCols_of s div kc_of s;
            relP = p
        in Option.bind (pushSubrows s nc 0 (kc_of s * (relP div nr)) [])
             (\<lambda>queue.
                Option.bind (levelLoop s (nr div kr_of s) (nc div kc_of s) (relP mod nr) queue)
                  (\<lambda>(nr', nc', relP', queue'). leafPass s nr' nc' relP' queue' succs)))"

definition getSuccessorPositions :: "'e KrKcTree \<Rightarrow> nat \<Rightarrow> nat list option" where
  "getSuccessorPositions s i = allSuccessorPositionsIterative s [] i"

subsection \<open>getFirstSuccessor\<close>

text \<open>The frames of the explicit stack (\<open>ExtendedSubrowInfo\<close>).\<close>

record ExtendedSubrowInfo =
  nr_of :: nat
  nc_of :: nat
  p_of :: nat
  dq_of :: nat
  z_of :: nat
  j_of :: nat

text \<open>\<open>cur.dq += cur.nc; cur.z++; cur.j++;\<close>\<close>

definition advance :: "ExtendedSubrowInfo \<Rightarrow> ExtendedSubrowInfo" where
  "advance cur = cur\<lparr>dq_of := dq_of cur + nc_of cur, z_of := z_of cur + 1, j_of := j_of cur + 1\<rparr>"

text \<open>The \<open>while (!stack.empty())\<close> loop; the top of the stack is the head of the list.
  When the loop ends the function returns \<open>numCols_\<close>.\<close>

partial_function (option) stackLoop :: "'e KrKcTree \<Rightarrow> ExtendedSubrowInfo list \<Rightarrow> nat option" where
  [code]: "stackLoop s stack =
     (case stack of
        [] \<Rightarrow> Some (numCols_of s)
      | cur # rest \<Rightarrow>
          if j_of cur = kc_of s then stackLoop s rest
          else if z_of cur \<ge> length (T_of s) then
            Option.bind (nth_opt (L_of s) (z_of cur - length (T_of s)))
              (\<lambda>v. if v \<noteq> null_of s then Some (dq_of cur) else stackLoop s (advance cur # rest))
          else if T_of s ! z_of cur then
            stackLoop s
              (\<lparr>nr_of = nr_of cur div kr_of s, nc_of = nc_of cur div kc_of s,
                p_of = p_of cur mod (nr_of cur div kr_of s), dq_of = dq_of cur,
                z_of = rank (T_of s) (z_of cur + 1) * kr_of s * kc_of s
                         + kc_of s * (p_of cur div (nr_of cur div kr_of s)),
                j_of = 0\<rparr> # advance cur # rest)
          else stackLoop s (advance cur # rest))"

text \<open>The loop of the case \<open>T_.size() == 0\<close>, which returns from inside.\<close>

fun firstInRow :: "'e KrKcTree \<Rightarrow> nat \<Rightarrow> nat list \<Rightarrow> nat option" where
  "firstInRow s offset [] = Some (numCols_of s)"
| "firstInRow s offset (i # is) =
     Option.bind (nth_opt (L_of s) (offset + i))
       (\<lambda>v. if v \<noteq> null_of s then Some i else firstInRow s offset is)"

definition firstSuccessorPositionIterative :: "'e KrKcTree \<Rightarrow> nat \<Rightarrow> nat option" where
  "firstSuccessorPositionIterative s p =
     (if L_of s = [] then Some (numCols_of s)
      else if length (T_of s) = 0 then firstInRow s (p * numCols_of s) [0..<numCols_of s]
      else
        stackLoop s
          [\<lparr>nr_of = numRows_of s div kr_of s, nc_of = numCols_of s div kc_of s,
            p_of = p mod (numRows_of s div kr_of s), dq_of = 0,
            z_of = kc_of s * (p div (numRows_of s div kr_of s)), j_of = 0\<rparr>])"

definition getFirstSuccessor :: "'e KrKcTree \<Rightarrow> nat \<Rightarrow> nat option" where
  "getFirstSuccessor s i = firstSuccessorPositionIterative s i"

subsection \<open>getPredecessorPositions\<close>

partial_function (option) predecessorsPos ::
  "'e KrKcTree \<Rightarrow> nat list \<Rightarrow> nat \<Rightarrow> nat \<Rightarrow> nat \<Rightarrow> nat \<Rightarrow> nat \<Rightarrow> nat list option" where
  [code]: "predecessorsPos s preds numRows numCols q p z =
     (if z \<ge> length (T_of s) then
        map_option (\<lambda>v. if v \<noteq> null_of s then preds @ [p] else preds)
          (nth_opt (L_of s) (z - length (T_of s)))
      else if T_of s ! z then
        for_loop [0..<kr_of s]
          (\<lambda>i preds'.
             predecessorsPos s preds' (numRows div kr_of s) (numCols div kc_of s)
               (q mod (numCols div kc_of s)) (p + (numRows div kr_of s) * i)
               (rank (T_of s) (z + 1) * kr_of s * kc_of s + q div (numCols div kc_of s)
                  + i * kc_of s))
          preds
      else Some preds)"

definition predecessorsPosInit :: "'e KrKcTree \<Rightarrow> nat list \<Rightarrow> nat \<Rightarrow> nat list option" where
  "predecessorsPosInit s preds q =
     (if L_of s \<noteq> [] then
        for_loop [0..<kr_of s]
          (\<lambda>i preds'.
             predecessorsPos s preds' (numRows_of s div kr_of s) (numCols_of s div kc_of s)
               (q mod (numCols_of s div kc_of s)) ((numRows_of s div kr_of s) * i)
               (q div (numCols_of s div kc_of s) + i * kc_of s))
          preds
      else Some preds)"

definition getPredecessorPositions :: "'e KrKcTree \<Rightarrow> nat \<Rightarrow> nat list option" where
  "getPredecessorPositions s j = predecessorsPosInit s [] j"

subsection \<open>getPositionsInRange\<close>

text \<open>The bounds handed to the child in row (or column) \<open>i\<close> of the group, for a range
  \<open>p1..p2\<close> and children of extent \<open>n\<close>:
  \<^verbatim>\<open>p1Prime = (i == p1 / n) * (p1 % n);  p2Prime = (i == p2 / n) ? p2 % n : n - 1;\<close>\<close>

definition lowPrime :: "nat \<Rightarrow> nat \<Rightarrow> nat \<Rightarrow> nat" where
  "lowPrime i p1 n = (if i = p1 div n then 1 else 0) * (p1 mod n)"

definition highPrime :: "nat \<Rightarrow> nat \<Rightarrow> nat \<Rightarrow> nat" where
  "highPrime i p2 n = (if i = p2 div n then p2 mod n else n - 1)"

partial_function (option) rangePos ::
  "'e KrKcTree \<Rightarrow> (nat \<times> nat) list \<Rightarrow> nat \<Rightarrow> nat \<Rightarrow> nat \<Rightarrow> nat \<Rightarrow> nat \<Rightarrow> nat \<Rightarrow> nat \<Rightarrow> nat \<Rightarrow> nat
     \<Rightarrow> (nat \<times> nat) list option" where
  [code]: "rangePos s pairs numRows numCols p1 p2 q1 q2 dp dq z =
     (if z \<ge> length (T_of s) then
        map_option (\<lambda>v. if v \<noteq> null_of s then pairs @ [(dp, dq)] else pairs)
          (nth_opt (L_of s) (z - length (T_of s)))
      else if T_of s ! z then
        for_loop [p1 div (numRows div kr_of s)..<Suc (p2 div (numRows div kr_of s))]
          (\<lambda>i. for_loop [q1 div (numCols div kc_of s)..<Suc (q2 div (numCols div kc_of s))]
             (\<lambda>j pairs'.
                rangePos s pairs' (numRows div kr_of s) (numCols div kc_of s)
                  (lowPrime i p1 (numRows div kr_of s)) (highPrime i p2 (numRows div kr_of s))
                  (lowPrime j q1 (numCols div kc_of s)) (highPrime j q2 (numCols div kc_of s))
                  (dp + (numRows div kr_of s) * i) (dq + (numCols div kc_of s) * j)
                  (rank (T_of s) (z + 1) * kr_of s * kc_of s + kc_of s * i + j)))
          pairs
      else Some pairs)"

definition rangePosInit ::
  "'e KrKcTree \<Rightarrow> (nat \<times> nat) list \<Rightarrow> nat \<Rightarrow> nat \<Rightarrow> nat \<Rightarrow> nat \<Rightarrow> (nat \<times> nat) list option" where
  "rangePosInit s pairs p1 p2 q1 q2 =
     (if L_of s \<noteq> [] then
        for_loop [p1 div (numRows_of s div kr_of s)..<Suc (p2 div (numRows_of s div kr_of s))]
          (\<lambda>i. for_loop [q1 div (numCols_of s div kc_of s)..<Suc (q2 div (numCols_of s div kc_of s))]
             (\<lambda>j pairs'.
                rangePos s pairs' (numRows_of s div kr_of s) (numCols_of s div kc_of s)
                  (lowPrime i p1 (numRows_of s div kr_of s))
                  (highPrime i p2 (numRows_of s div kr_of s))
                  (lowPrime j q1 (numCols_of s div kc_of s))
                  (highPrime j q2 (numCols_of s div kc_of s))
                  ((numRows_of s div kr_of s) * i) ((numCols_of s div kc_of s) * j)
                  (kc_of s * i + j)))
          pairs
      else Some pairs)"

definition getPositionsInRange ::
  "'e KrKcTree \<Rightarrow> nat \<Rightarrow> nat \<Rightarrow> nat \<Rightarrow> nat \<Rightarrow> (nat \<times> nat) list option" where
  "getPositionsInRange s i1 i2 j1 j2 = rangePosInit s [] i1 i2 j1 j2"

subsection \<open>containsElement\<close>

text \<open>The loops of \<open>elemInRange\<close> return \<open>true\<close> from inside: the loop variable \<open>found\<close>
  of the model is set by that return and no later run of the body does anything.
  At a leaf the function returns the element itself, converted to \<open>bool\<close>.\<close>

partial_function (option) elemInRange ::
  "('e::zero) KrKcTree \<Rightarrow> nat \<Rightarrow> nat \<Rightarrow> nat \<Rightarrow> nat \<Rightarrow> nat \<Rightarrow> nat \<Rightarrow> nat \<Rightarrow> bool option" where
  [code]: "elemInRange s numRows numCols p1 p2 q1 q2 z =
     (if z \<ge> length (T_of s) then
        map_option (\<lambda>v. v \<noteq> 0) (nth_opt (L_of s) (z - length (T_of s)))
      else if T_of s ! z then
        (if p1 = 0 \<and> q1 = 0 \<and> p2 = numRows - 1 \<and> q2 = numCols - 1 then Some True
         else
           for_loop [p1 div (numRows div kr_of s)..<Suc (p2 div (numRows div kr_of s))]
             (\<lambda>i. for_loop [q1 div (numCols div kc_of s)..<Suc (q2 div (numCols div kc_of s))]
                (\<lambda>j found.
                   if found then Some True
                   else
                     elemInRange s (numRows div kr_of s) (numCols div kc_of s)
                       (lowPrime i p1 (numRows div kr_of s)) (highPrime i p2 (numRows div kr_of s))
                       (lowPrime j q1 (numCols div kc_of s)) (highPrime j q2 (numCols div kc_of s))
                       (rank (T_of s) (z + 1) * kr_of s * kc_of s + kc_of s * i + j)))
             False)
      else Some False)"

definition elemInRangeInit :: "('e::zero) KrKcTree \<Rightarrow> nat \<Rightarrow> nat \<Rightarrow> nat \<Rightarrow> nat \<Rightarrow> bool option" where
  "elemInRangeInit s p1 p2 q1 q2 =
     (if L_of s \<noteq> [] then
        (if p1 = 0 \<and> q1 = 0 \<and> p2 = numRows_of s - 1 \<and> q2 = numCols_of s - 1 then Some True
         else
           for_loop [p1 div (numRows_of s div kr_of s)..<Suc (p2 div (numRows_of s div kr_of s))]
             (\<lambda>i. for_loop
                [q1 div (numCols_of s div kc_of s)..<Suc (q2 div (numCols_of s div kc_of s))]
                (\<lambda>j found.
                   if found then Some True
                   else
                     elemInRange s (numRows_of s div kr_of s) (numCols_of s div kc_of s)
                       (lowPrime i p1 (numRows_of s div kr_of s))
                       (highPrime i p2 (numRows_of s div kr_of s))
                       (lowPrime j q1 (numCols_of s div kc_of s))
                       (highPrime j q2 (numCols_of s div kc_of s))
                       (kc_of s * i + j)))
             False)
      else Some False)"

definition containsElement :: "('e::zero) KrKcTree \<Rightarrow> nat \<Rightarrow> nat \<Rightarrow> nat \<Rightarrow> nat \<Rightarrow> bool option" where
  "containsElement s i1 i2 j1 j2 = elemInRangeInit s i1 i2 j1 j2"

subsection \<open>The bool specialisation: construction from a relation matrix\<close>

text \<open>In \<open>KrKcTree<bool>\<close> the builder keeps \<open>h_\<close> level buffers, the last of which
  becomes \<open>L_\<close>; the group \<open>C\<close> is tested and appended after the \<open>if\<close> on the level.\<close>

definition matrixGroup_bool :: "bool KrKcTree \<Rightarrow> bool list list \<Rightarrow> nat \<Rightarrow> nat \<Rightarrow> bool list option" where
  "matrixGroup_bool s mat p q =
     for_loop [0..<kr_of s] (\<lambda>i. for_loop [0..<kc_of s] (\<lambda>j C.
       map_option (\<lambda>v. C @ [v]) (matEntry mat False (p + i) (q + j)))) []"

partial_function (option) buildFromMatrix_bool ::
  "bool KrKcTree \<Rightarrow> bool list list \<Rightarrow> nat \<Rightarrow> nat \<Rightarrow> nat \<Rightarrow> nat \<Rightarrow> nat \<Rightarrow> bool list list
     \<Rightarrow> (bool \<times> bool list list) option" where
  [code]: "buildFromMatrix_bool s mat numRows numCols l p q levels =
     Option.bind
       (if l = h_of s then
          map_option (\<lambda>C. (C, levels)) (matrixGroup_bool s mat p q)
        else
          for_loop [0..<kr_of s] (\<lambda>i. for_loop [0..<kc_of s] (\<lambda>j (C, levels').
            Option.bind
              (buildFromMatrix_bool s mat (numRows div kr_of s) (numCols div kc_of s) (l + 1)
                 (p + i * (numRows div kr_of s)) (q + j * (numCols div kc_of s)) levels')
              (\<lambda>(b, levels''). Some (C @ [b], levels'')))) ([], levels))
       (\<lambda>(C, levels').
          if isAllZero C then Some (False, levels')
          else map_option (\<lambda>lv. (True, lv)) (append_level levels' (l - 1) C))"

definition KrKcTree_bool_matrix :: "bool list list \<Rightarrow> nat \<Rightarrow> nat \<Rightarrow> bool KrKcTree option" where
  "KrKcTree_bool_matrix mat kr kc =
     (if mat = [] then None
      else
        let h = max 1 (max (logK (length mat) kr) (logK (length (mat ! 0)) kc));
            s = \<lparr>T_of = [], L_of = [], h_of = h, kr_of = kr, kc_of = kc,
                 numRows_of = kr ^ h, numCols_of = kc ^ h, null_of = False\<rparr>
        in Option.bind
             (buildFromMatrix_bool s mat (numRows_of s) (numCols_of s) 1 0 0 (replicate h []))
             (\<lambda>(b, levels).
                Some (s\<lparr>T_of := finish_T levels (h - 1), L_of := levels ! (h - 1)\<rparr>)))"

subsection \<open>Construction from relation lists via dynamic bitmaps\<close>

text \<open>Modelled from the spec: the class \<open>NaiveDynamicRank\<close> (not in the source file). Its
  \<open>rank(pos)\<close> is the number of 1-bits in the first \<open>pos\<close> positions of the bit vector
  \<open>T\<close> it accompanies, and \<open>increaseFrom\<close> and \<open>insert\<close> keep it in step with the changes
  made to \<open>T\<close>; so the model has no state for \<open>R\<close> and answers \<open>R.rank(pos)\<close> by
  \<open>rank T pos\<close> on the current \<open>T\<close>.\<close>

text \<open>\<open>v.insert(v.begin() + at, count, x)\<close>; \<open>at\<close> beyond the end is out of range.\<close>

definition insert_at :: "'a list \<Rightarrow> nat \<Rightarrow> nat \<Rightarrow> 'a \<Rightarrow> 'a list option" where
  "insert_at v at count x =
     (if at \<le> length v then Some (take at v @ replicate count x @ drop at v) else None)"

text \<open>\<open>v[i] = x\<close>\<close>

definition assign_at :: "'a list \<Rightarrow> nat \<Rightarrow> 'a \<Rightarrow> 'a list option" where
  "assign_at v i x = (if i < length v then Some (v[i := x]) else None)"

text \<open>The state of \<open>insert\<close> is the bit vector \<open>T\<close> and the object (for \<open>L_\<close>). The
  parameter \<open>val\<close> is not used by the source: the leaf cell is assigned the literal 1.\<close>

partial_function (option) insert_dyn ::
  "nat \<Rightarrow> nat \<Rightarrow> nat \<Rightarrow> nat \<Rightarrow> 'e \<Rightarrow> nat \<Rightarrow> nat \<Rightarrow> bool list \<times> ('e::one) KrKcTree
     \<Rightarrow> (bool list \<times> 'e KrKcTree) option" where
  [code]: "insert_dyn numRows numCols p q val z l st =
     (case st of (T, s) \<Rightarrow>
      Option.bind (nth_opt T z) (\<lambda>b.
        if \<not> b then
          (let T1 = T[z := True];
               y = rank T1 (z + 1) * kr_of s * kc_of s
                     + (p div (numRows div kr_of s)) * kc_of s + q div (numCols div kc_of s)
           in if l + 1 = h_of s then
                Option.bind (sub_opt (rank T1 (z + 1) * kr_of s * kc_of s) (length T1)) (\<lambda>at.
                Option.bind (insert_at (L_of s) at (kr_of s * kc_of s) (null_of s)) (\<lambda>L1.
                Option.bind (sub_opt y (length T1)) (\<lambda>i.
                Option.bind (assign_at L1 i 1) (\<lambda>L2. Some (T1, s\<lparr>L_of := L2\<rparr>)))))
              else
                Option.bind
                  (insert_at T1 (rank T1 (z + 1) * kr_of s * kc_of s) (kr_of s * kc_of s) False)
                  (\<lambda>T2. insert_dyn (numRows div kr_of s) (numCols div kc_of s)
                          (p mod (numRows div kr_of s)) (q mod (numCols div kc_of s)) val y (l + 1)
                          (T2, s)))
        else
          (let y = rank T (z + 1) * kr_of s * kc_of s
                     + (p div (numRows div kr_of s)) * kc_of s + q div (numCols div kc_of s)
           in if l + 1 = h_of s then
                Option.bind (sub_opt y (length T)) (\<lambda>i.
                Option.bind (assign_at (L_of s) i 1) (\<lambda>L2. Some (T, s\<lparr>L_of := L2\<rparr>)))
              else
                insert_dyn (numRows div kr_of s) (numCols div kc_of s)
                  (p mod (numRows div kr_of s)) (q mod (numCols div kc_of s)) val y (l + 1)
                  (T, s))))"

definition insertInit :: "nat \<Rightarrow> nat \<Rightarrow> 'e \<Rightarrow> bool list \<times> ('e::one) KrKcTree
     \<Rightarrow> (bool list \<times> 'e KrKcTree) option" where
  "insertInit p q val st =
     (case st of (T, s) \<Rightarrow>
        insert_dyn (numRows_of s div kr_of s) (numCols_of s div kc_of s)
          (p mod (numRows_of s div kr_of s)) (q mod (numCols_of s div kc_of s)) val
          ((p div (numRows_of s div kr_of s)) * kc_of s + q div (numCols_of s div kc_of s)) 1
          (if T = [] then replicate (kr_of s * kc_of s) False else T, s))"

text \<open>A relation list is a list of pairs (column, value); the loops run over the rows
  \<open>i\<close> and the entries \<open>j\<close> of a row.\<close>

definition buildFromListsDynamicBitmaps ::
  "('e::one) KrKcTree \<Rightarrow> (nat \<times> 'e) list list \<Rightarrow> 'e KrKcTree option" where
  "buildFromListsDynamicBitmaps s rlists =
     (if h_of s = 1 then
        Option.bind
          (for_loop [0..<length rlists] (\<lambda>i. for_loop [0..<length (rlists ! i)] (\<lambda>j L.
             assign_at L (i * kc_of s + fst (rlists ! i ! j)) (snd (rlists ! i ! j))))
             (replicate (kr_of s * kc_of s) (null_of s)))
          (\<lambda>L. Some (s\<lparr>L_of := (if isAll L (null_of s) then [] else L)\<rparr>))
      else
        Option.bind
          (for_loop [0..<length rlists] (\<lambda>i. for_loop [0..<length (rlists ! i)] (\<lambda>j.
             insertInit i (fst (rlists ! i ! j)) (snd (rlists ! i ! j))))
             ([], s))
          (\<lambda>(T, s'). Some (s'\<lparr>T_of := T\<rparr>)))"

text \<open>The list-of-rlists constructor for \<open>mode = 2\<close> (the branch \<open>case 2\<close> of the
  \<open>switch\<close>, which is also the \<open>default\<close> branch).\<close>

definition KrKcTree_lists_mode2 ::
  "(nat \<times> 'e) list list \<Rightarrow> nat \<Rightarrow> nat \<Rightarrow> 'e \<Rightarrow> ('e::one) KrKcTree option" where
  "KrKcTree_lists_mode2 rlists kr kc null =
     (let maxCol = fold (\<lambda>row m. fold (\<lambda>elem m'. max m' (fst elem)) row m) rlists 0 + 1;
          h = max 1 (max (logK (length rlists) kr) (logK maxCol kc));
          s = \<lparr>T_of = [], L_of = [], h_of = h, kr_of = kr, kc_of = kc,
               numRows_of = kr ^ h, numCols_of = kc ^ h, null_of = null\<rparr>
      in buildFromListsDynamicBitmaps s rlists)"

section \<open>The invariant of a constructed object\<close>

text \<open>
  The definitions of this section are not part of the C++ code: they state what the
  navigation relies on. \<open>T_\<close> is the concatenation of \<open>h_ - 1\<close> levels; the first has
  \<open>kr_ * kc_\<close> bits and every further level, the leaf level \<open>L_\<close> included, has
  \<open>kr_ * kc_\<close> entries for every 1-bit of the level above it.
\<close>

definition ones :: "bool list \<Rightarrow> nat" where
  "ones bs = length (filter (\<lambda>b. b) bs)"

fun wf_chain :: "nat \<Rightarrow> nat \<Rightarrow> nat \<Rightarrow> bool list \<Rightarrow> nat \<Rightarrow> bool" where
  "wf_chain k n 0 T lenL = (T = [] \<and> lenL = n)"
| "wf_chain k n (Suc d) T lenL =
     (n \<le> length T \<and> wf_chain k (k * ones (take n T)) d (drop n T) lenL)"

definition valid :: "'e KrKcTree \<Rightarrow> bool" where
  "valid s \<longleftrightarrow>
     2 \<le> kr_of s \<and> 2 \<le> kc_of s \<and> 1 \<le> h_of s \<and>
     numRows_of s = kr_of s ^ h_of s \<and> numCols_of s = kc_of s ^ h_of s \<and>
     (L_of s = [] \<or>
      wf_chain (kr_of s * kc_of s) (kr_of s * kc_of s) (h_of s - 1) (T_of s) (length (L_of s)))"

definition lvl :: "'e KrKcTree \<Rightarrow> nat \<Rightarrow> nat \<Rightarrow> nat \<Rightarrow> bool" where
  "lvl s a n d \<longleftrightarrow>
     a \<le> length (T_of s) \<and>
     a + n = kr_of s * kc_of s * (1 + ones (take a (T_of s))) \<and>
     wf_chain (kr_of s * kc_of s) n d (drop a (T_of s)) (length (L_of s))"

definition next_n :: "'e KrKcTree \<Rightarrow> nat \<Rightarrow> nat \<Rightarrow> nat" where
  "next_n s a n = kr_of s * kc_of s * ones (take n (drop a (T_of s)))"

definition cidx :: "'e KrKcTree \<Rightarrow> nat \<Rightarrow> nat \<Rightarrow> nat" where
  "cidx s a i = kr_of s * kc_of s * ones (take i (drop a (T_of s)))"

fun pos :: "'e KrKcTree \<Rightarrow> nat \<Rightarrow> nat \<Rightarrow> nat \<Rightarrow> nat \<Rightarrow> nat option" where
  "pos s 0 p q z = Some z"
| "pos s (Suc d) p q z =
     (if T_of s ! z then
        pos s d (p mod kr_of s ^ d) (q mod kc_of s ^ d)
          (rank (T_of s) (z + 1) * kr_of s * kc_of s + (p div kr_of s ^ d) * kc_of s
             + q div kc_of s ^ d)
      else None)"

definition cellv :: "'e KrKcTree \<Rightarrow> nat \<Rightarrow> nat \<Rightarrow> nat \<Rightarrow> nat \<Rightarrow> 'e" where
  "cellv s d p q z =
     (case pos s d p q z of None \<Rightarrow> null_of s | Some y \<Rightarrow> L_of s ! (y - length (T_of s)))"

definition tpos :: "'e KrKcTree \<Rightarrow> nat \<Rightarrow> nat \<Rightarrow> nat option" where
  "tpos s p q =
     pos s (h_of s - 1) (p mod kr_of s ^ (h_of s - 1)) (q mod kc_of s ^ (h_of s - 1))
       ((p div kr_of s ^ (h_of s - 1)) * kc_of s + q div kc_of s ^ (h_of s - 1))"

definition cell :: "'e KrKcTree \<Rightarrow> nat \<Rightarrow> nat \<Rightarrow> 'e" where
  "cell s p q =
     (if L_of s = [] then null_of s
      else case tpos s p q of None \<Rightarrow> null_of s | Some y \<Rightarrow> L_of s ! (y - length (T_of s)))"

text \<open>Scenario A of the specification: the object built from a 4x4 matrix with entries
  at (0,0), (1,3) and (3,2), for \<open>kr = kc = 2\<close>.\<close>

definition scenarioA :: "int KrKcTree" where
  "scenarioA =
     \<lparr>T_of = [True, True, False, True], L_of = [1, 0, 0, 0, 0, 0, 0, 1, 0, 0, 1, 0],
      h_of = 2, kr_of = 2, kc_of = 2, numRows_of = 4, numCols_of = 4, null_of = 0\<rparr>"

text \<open>The columns of a subtree's row \<open>p\<close> that hold an element, shifted by \<open>dq\<close>.\<close>

definition rowCols :: "'e KrKcTree \<Rightarrow> nat \<Rightarrow> nat \<Rightarrow> nat \<Rightarrow> nat \<Rightarrow> nat list" where
  "rowCols s d p dq z =
     map (\<lambda>c. dq + c) (filter (\<lambda>c. cellv s d p c z \<noteq> null_of s) [0..<kc_of s ^ d])"

definition subrows :: "'e KrKcTree \<Rightarrow> nat \<Rightarrow> nat \<Rightarrow> nat \<Rightarrow> nat \<times> nat \<Rightarrow> (nat \<times> nat) list" where
  "subrows s nr nc relP e =
     (if T_of s ! snd e then
        map (\<lambda>j. (fst e + j * nc,
                  rank (T_of s) (snd e + 1) * kr_of s * kc_of s + kc_of s * (relP div nr) + j))
          [0..<kc_of s]
      else [])"

definition qinv :: "nat \<Rightarrow> nat \<Rightarrow> (nat \<times> nat) list \<Rightarrow> bool" where
  "qinv a n Q \<longleftrightarrow> (\<forall>e \<in> set Q. \<exists>i<n. snd e = a + i)"

definition QV :: "'e KrKcTree \<Rightarrow> nat \<Rightarrow> nat \<Rightarrow> (nat \<times> nat) list \<Rightarrow> nat list" where
  "QV s d p Q = concat (map (\<lambda>e. rowCols s d p (fst e) (snd e)) Q)"

definition rowOf :: "'e KrKcTree \<Rightarrow> nat \<Rightarrow> nat list" where
  "rowOf s p = filter (\<lambda>c. cell s p c \<noteq> null_of s) [0..<numCols_of s]"

text \<open>What the frames of the stack of \<open>getFirstSuccessor\<close> stand for: the frame \<open>f\<close>, on a
  level with \<open>d\<close> levels below it, still has the children \<open>j, ..., kc - 1\<close> of its group to
  visit.\<close>

definition finv :: "'e KrKcTree \<Rightarrow> nat \<Rightarrow> ExtendedSubrowInfo \<Rightarrow> bool" where
  "finv s d f \<longleftrightarrow>
     (\<exists>a n i0. lvl s a n d \<and> nr_of f = kr_of s ^ d \<and> nc_of f = kc_of s ^ d \<and>
        p_of f < kr_of s ^ d \<and> j_of f \<le> kc_of s \<and> z_of f = a + i0 + j_of f \<and>
        i0 + kc_of s \<le> n)"

definition FV :: "'e KrKcTree \<Rightarrow> nat \<Rightarrow> ExtendedSubrowInfo \<Rightarrow> nat list" where
  "FV s d f =
     concat (map (\<lambda>t. rowCols s d (p_of f) (dq_of f + t * nc_of f) (z_of f + t))
               [0..<kc_of s - j_of f])"

definition first_or :: "nat \<Rightarrow> nat list \<Rightarrow> nat" where
  "first_or dflt xs = (case xs of [] \<Rightarrow> dflt | x # _ \<Rightarrow> x)"

fun work :: "nat \<Rightarrow> nat \<Rightarrow> nat" where
  "work kc 0 = 1"
| "work kc (Suc d) = 2 + kc * work kc d"

definition msr :: "'e KrKcTree \<Rightarrow> (ExtendedSubrowInfo \<times> nat) list \<Rightarrow> nat" where
  "msr s fds = sum_list (map (\<lambda>(f, d). 1 + (kc_of s - j_of f) * work (kc_of s) d) fds)"

text \<open>The rows of a subtree's column \<open>q\<close> that hold an element, shifted by \<open>dp\<close>.\<close>

definition colRows :: "'e KrKcTree \<Rightarrow> nat \<Rightarrow> nat \<Rightarrow> nat \<Rightarrow> nat \<Rightarrow> nat list" where
  "colRows s d q dp z =
     map (\<lambda>r. dp + r) (filter (\<lambda>r. cellv s d r q z \<noteq> null_of s) [0..<kr_of s ^ d])"

definition colOf :: "'e KrKcTree \<Rightarrow> nat \<Rightarrow> nat list" where
  "colOf s q = filter (\<lambda>r. cell s r q \<noteq> null_of s) [0..<numRows_of s]"

text \<open>The positions \<open>rangePos\<close> appends, in its order.\<close>

fun rangeList ::
  "'e KrKcTree \<Rightarrow> nat \<Rightarrow> nat \<Rightarrow> nat \<Rightarrow> nat \<Rightarrow> nat \<Rightarrow> nat \<Rightarrow> nat \<Rightarrow> nat \<Rightarrow> (nat \<times> nat) list" where
  "rangeList s 0 p1 p2 q1 q2 dp dq z =
     (if L_of s ! (z - length (T_of s)) \<noteq> null_of s then [(dp, dq)] else [])"
| "rangeList s (Suc d) p1 p2 q1 q2 dp dq z =
     (if T_of s ! z then
        concat (map (\<lambda>i. concat (map (\<lambda>j.
          rangeList s d
            (lowPrime i p1 (kr_of s ^ d)) (highPrime i p2 (kr_of s ^ d))
            (lowPrime j q1 (kc_of s ^ d)) (highPrime j q2 (kc_of s ^ d))
            (dp + kr_of s ^ d * i) (dq + kc_of s ^ d * j)
            (rank (T_of s) (z + 1) * kr_of s * kc_of s + kc_of s * i + j))
          [q1 div kc_of s ^ d..<Suc (q2 div kc_of s ^ d)]))
          [p1 div kr_of s ^ d..<Suc (p2 div kr_of s ^ d)])
      else [])"

text \<open>The positions \<open>rangePosInit\<close> appends.\<close>

definition rangeTop :: "'e KrKcTree \<Rightarrow> nat \<Rightarrow> nat \<Rightarrow> nat \<Rightarrow> nat \<Rightarrow> (nat \<times> nat) list" where
  "rangeTop s p1 p2 q1 q2 =
     concat (map (\<lambda>i. concat (map (\<lambda>j.
       rangeList s (h_of s - 1)
         (lowPrime i p1 (kr_of s ^ (h_of s - 1))) (highPrime i p2 (kr_of s ^ (h_of s - 1)))
         (lowPrime j q1 (kc_of s ^ (h_of s - 1))) (highPrime j q2 (kc_of s ^ (h_of s - 1)))
         (0 + kr_of s ^ (h_of s - 1) * i) (0 + kc_of s ^ (h_of s - 1) * j)
         (kc_of s * i + j))
       [q1 div kc_of s ^ (h_of s - 1)..<Suc (q2 div kc_of s ^ (h_of s - 1))]))
       [p1 div kr_of s ^ (h_of s - 1)..<Suc (p2 div kr_of s ^ (h_of s - 1))])"

text \<open>No group of \<open>T_\<close> is all zero and no group of \<open>L_\<close> is all null: the builders emit
  nothing for a subtree without an element.\<close>

definition pruned :: "'e KrKcTree \<Rightarrow> bool" where
  "pruned s \<longleftrightarrow>
     list_all (\<lambda>g. list_ex (\<lambda>b. b) (take (kr_of s * kc_of s) (drop (g * (kr_of s * kc_of s)) (T_of s))))
       [0..<length (T_of s) div (kr_of s * kc_of s)] \<and>
     list_all (\<lambda>g. list_ex (\<lambda>v. v \<noteq> null_of s)
                  (take (kr_of s * kc_of s) (drop (g * (kr_of s * kc_of s)) (L_of s))))
       [0..<length (L_of s) div (kr_of s * kc_of s)]"

text \<open>Some cell of the rectangle holds an element.\<close>

definition NE :: "'e KrKcTree \<Rightarrow> nat \<Rightarrow> nat \<Rightarrow> nat \<Rightarrow> nat \<Rightarrow> nat \<Rightarrow> nat \<Rightarrow> bool" where
  "NE s d p1 p2 q1 q2 z \<longleftrightarrow>
     (\<exists>r c. p1 \<le> r \<and> r \<le> p2 \<and> q1 \<le> c \<and> c \<le> q2 \<and> cellv s d r c z \<noteq> null_of s)"

text \<open>The entry at \<open>z\<close> is set: a 1-bit above the leaf level, an element on it.\<close>

definition alive :: "'e KrKcTree \<Rightarrow> nat \<Rightarrow> nat \<Rightarrow> bool" where
  "alive s d z \<longleftrightarrow>
     (if d = 0 then L_of s ! (z - length (T_of s)) \<noteq> null_of s else T_of s ! z)"

subsection \<open>The encoding computed by the matrix constructor\<close>

text \<open>What \<open>buildFromMatrix\<close> computes, as functions of the subtree alone. A subtree is
  given by the number \<open>d\<close> of levels below its group and by its first row \<open>p\<close> and column
  \<open>q\<close>; it covers \<open>kr ^ Suc d\<close> rows and \<open>kc ^ Suc d\<close> columns.\<close>

definition ment :: "'e list list \<Rightarrow> 'e \<Rightarrow> nat \<Rightarrow> nat \<Rightarrow> 'e" where
  "ment mat null r c = (if r < length mat \<and> c < length (mat ! 0) then mat ! r ! c else null)"

definition slots :: "nat \<Rightarrow> nat \<Rightarrow> (nat \<times> nat) list" where
  "slots kr kc = concat (map (\<lambda>i. map (Pair i) [0..<kc]) [0..<kr])"

definition lcat :: "'a list list \<Rightarrow> 'a list list \<Rightarrow> 'a list list" where
  "lcat A B = map2 (@) A B"

definition zipcat :: "nat \<Rightarrow> 'a list list list \<Rightarrow> 'a list list" where
  "zipcat d xss = foldr lcat xss (replicate d [])"

fun ne :: "nat \<Rightarrow> nat \<Rightarrow> 'e \<Rightarrow> 'e list list \<Rightarrow> nat \<Rightarrow> nat \<Rightarrow> nat \<Rightarrow> bool" where
  "ne kr kc null mat 0 p q =
     (\<not> isAll (map (\<lambda>(i, j). ment mat null (p + i) (q + j)) (slots kr kc)) null)"
| "ne kr kc null mat (Suc d) p q =
     (\<not> isAllZero (map (\<lambda>(i, j). ne kr kc null mat d (p + i * kr ^ Suc d) (q + j * kc ^ Suc d))
                     (slots kr kc)))"

fun lev :: "nat \<Rightarrow> nat \<Rightarrow> 'e \<Rightarrow> 'e list list \<Rightarrow> nat \<Rightarrow> nat \<Rightarrow> nat \<Rightarrow> bool list list" where
  "lev kr kc null mat 0 p q = []"
| "lev kr kc null mat (Suc d) p q =
     (if ne kr kc null mat (Suc d) p q
      then map (\<lambda>(i, j). ne kr kc null mat d (p + i * kr ^ Suc d) (q + j * kc ^ Suc d)) (slots kr kc)
      else []) #
     zipcat d (map (\<lambda>(i, j). lev kr kc null mat d (p + i * kr ^ Suc d) (q + j * kc ^ Suc d))
                 (slots kr kc))"

fun leaves :: "nat \<Rightarrow> nat \<Rightarrow> 'e \<Rightarrow> 'e list list \<Rightarrow> nat \<Rightarrow> nat \<Rightarrow> nat \<Rightarrow> 'e list" where
  "leaves kr kc null mat 0 p q =
     (if ne kr kc null mat 0 p q
      then map (\<lambda>(i, j). ment mat null (p + i) (q + j)) (slots kr kc) else [])"
| "leaves kr kc null mat (Suc d) p q =
     concat (map (\<lambda>(i, j). leaves kr kc null mat d (p + i * kr ^ Suc d) (q + j * kc ^ Suc d))
               (slots kr kc))"

text \<open>The shape of a list of levels: the first has \<open>n\<close> entries, every further one, and at
  last the leaf level of \<open>nL\<close> entries, \<open>k\<close> for every 1-bit of the level above it.\<close>

fun wfl :: "nat \<Rightarrow> nat \<Rightarrow> bool list list \<Rightarrow> nat \<Rightarrow> bool" where
  "wfl k n [] nL = (nL = n)"
| "wfl k n (lv # lvs) nL = (length lv = n \<and> wfl k (k * ones lv) lvs nL)"

text \<open>Navigation in a list of levels, by the index within a level.\<close>

fun lpos :: "nat \<Rightarrow> nat \<Rightarrow> bool list list \<Rightarrow> nat \<Rightarrow> nat \<Rightarrow> nat \<Rightarrow> nat option" where
  "lpos kr kc [] r c i = Some i"
| "lpos kr kc (lv # lvs) r c i =
     (if lv ! i then
        lpos kr kc lvs (r mod kr ^ length lvs) (c mod kc ^ length lvs)
          (kr * kc * ones (take i lv) + (r div kr ^ length lvs) * kc + c div kc ^ length lvs)
      else None)"

text \<open>All rows of the matrix are as long as the first one.\<close>

definition rect :: "'e list list \<Rightarrow> bool" where
  "rect mat \<longleftrightarrow> list_all (\<lambda>row. length row = length (mat ! 0)) mat"

text \<open>The height the constructor computes, and the object it is shown to build.\<close>

definition matH :: "'e list list \<Rightarrow> nat \<Rightarrow> nat \<Rightarrow> nat" where
  "matH mat kr kc = max 1 (max (logK (length mat) kr) (logK (length (mat ! 0)) kc))"

definition matTree :: "'e list list \<Rightarrow> nat \<Rightarrow> nat \<Rightarrow> 'e \<Rightarrow> 'e KrKcTree" where
  "matTree mat kr kc null =
     \<lparr>T_of = concat (lev kr kc null mat (matH mat kr kc - 1) 0 0),
      L_of = leaves kr kc null mat (matH mat kr kc - 1) 0 0,
      h_of = matH mat kr kc, kr_of = kr, kc_of = kc,
      numRows_of = kr ^ matH mat kr kc, numCols_of = kc ^ matH mat kr kc, null_of = null\<rparr>"

subsection \<open>The matrix constructor prunes empty groups\<close>

text \<open>A list made of groups of \<open>k\<close> entries that all satisfy \<open>P\<close>.\<close>

definition blocks :: "nat \<Rightarrow> ('a list \<Rightarrow> bool) \<Rightarrow> 'a list \<Rightarrow> bool" where
  "blocks k P xs \<longleftrightarrow>
     length xs mod k = 0 \<and>
     list_all (\<lambda>g. P (take k (drop (g * k) xs))) [0..<length xs div k]"

section \<open>Properties\<close>

subsection \<open>Parameter check of the windowed constructors\<close>

lemma checkParameters_throws_iff:
  "(\<exists>err. checkParameters s nr nc kr kc = Inl err) \<longleftrightarrow>
     (nr, nc) \<noteq> (numRows_of s, numCols_of s)"
  by (auto simp: checkParameters_def)

lemma KrKcTree_matrix_window_throws_iff:
  "(\<exists>err. KrKcTree_matrix_window mat x y nr nc kr kc null = Some (Inl err)) \<longleftrightarrow>
     (nr, nc) \<noteq> (kr ^ max 1 (max (logK nr kr) (logK nc kc)),
                  kc ^ max 1 (max (logK nr kr) (logK nc kc)))"
  by (auto simp: KrKcTree_matrix_window_def checkParameters_def Let_def
      split: sum.splits option.splits Option.bind_splits)

text \<open>
  C8 (the thrown message carries \<open>nr\<close>, \<open>nc\<close>, \<open>kr\<close>, \<open>kc\<close>, \<open>h\<close>, \<open>numRows\<close> and
  \<open>numCols\<close>): on the window \<open>nr = 3\<close>, \<open>nc = 4\<close> with \<open>kr = kc = 2\<close> the constructor
  throws, as it has to (\<open>h = 2\<close>, \<open>numRows = 4\<close>), but the message starts at the value of
  \<open>nc\<close>: the value 3 of \<open>nr\<close> does not occur in it.
\<close>

theorem checkParameters_message_drops_nr:
  "KrKcTree_matrix_window [[0, 0, 0, 1 :: int]] 0 0 3 4 2 2 0 =
     Some (Inl ''4, kr = 2 and kc = 2 leading to h = 2 and 4 rows resp. 4 columns.'') \<and>
   CHR ''3'' \<notin> set ''4, kr = 2 and kc = 2 leading to h = 2 and 4 rows resp. 4 columns.''"
  by code_simp

subsection \<open>Leaf groups of the bool specialisation\<close>

lemma buildFromMatrix_bool_leaf:
  "l = h_of s \<Longrightarrow> matrixGroup_bool s mat p q = Some C \<Longrightarrow>
   buildFromMatrix_bool s mat numRows numCols l p q levels =
     (if isAllZero C then Some (False, levels)
      else map_option (\<lambda>lv. (True, lv)) (append_level levels (l - 1) C))"
  by (subst buildFromMatrix_bool.simps) simp

text \<open>
  C10 as stated (an all-zero leaf group is still appended to the leaf-level buffer) fails:
  for the all-zero 2x2 matrix with \<open>kr = kc = 2\<close> the only leaf group is all zero, the builder
  returns \<open>false\<close> and the leaf-level buffer \<open>levels[0]\<close> stays empty.
\<close>

theorem buildFromMatrix_bool_zero_group_counterexample:
  "buildFromMatrix_bool
     \<lparr>T_of = [], L_of = [], h_of = 1, kr_of = 2, kc_of = 2, numRows_of = 2, numCols_of = 2,
      null_of = False\<rparr>
     [[False, False], [False, False]] 2 2 1 0 0 [[]] = Some (False, [[]]) \<and>
   [[]] ! 0 \<noteq> ([[]] ! 0) @ [False, False, False, False]"
  by code_simp

text \<open>
  C10, amended: in the matrix-based builder of the bool specialisation a leaf-level call
  whose group of \<open>kr * kc\<close> bits is all zero returns \<open>false\<close> and leaves every level buffer,
  the leaf-level one included, as it was; a group with a set bit is appended to the
  leaf-level buffer \<open>levels[h - 1]\<close> and \<open>true\<close> is returned.
\<close>

theorem buildFromMatrix_bool_leaf_group:
  assumes "l = h_of s" and "matrixGroup_bool s mat p q = Some C" and "0 < l" and "l \<le> length levels"
  shows "buildFromMatrix_bool s mat numRows numCols l p q levels =
           (if isAllZero C then Some (False, levels)
            else Some (True, levels[h_of s - 1 := levels ! (h_of s - 1) @ C]))"
proof -
  from assms have "h_of s - 1 < length levels" by arith
  with assms show ?thesis
    by (simp add: buildFromMatrix_bool_leaf append_level_def)
qed

theorem buildFromMatrix_bool_leaf_group_witness:
  "buildFromMatrix_bool
     \<lparr>T_of = [], L_of = [], h_of = 1, kr_of = 2, kc_of = 2, numRows_of = 2, numCols_of = 2,
      null_of = False\<rparr>
     [[False, True], [False, False]] 2 2 1 0 0 [[]] = Some (True, [[False, True, False, False]])"
proof -
  let ?s = "\<lparr>T_of = [], L_of = [], h_of = 1, kr_of = 2, kc_of = 2, numRows_of = 2,
             numCols_of = 2, null_of = False\<rparr>"
  have g: "matrixGroup_bool ?s [[False, True], [False, False]] 0 0 = Some [False, True, False, False]"
    by code_simp
  have z: "\<not> isAllZero [False, True, False, False]"
    by (simp add: isAllZero_def)
  show ?thesis
    using buildFromMatrix_bool_leaf_group [of 1 ?s "[[False, True], [False, False]]" 0 0
        "[False, True, False, False]" "[[]]" 2 2] g z
    by simp
qed

lemma rank_ones: "rank T m = ones (take m T)"
  by (simp add: rank_def ones_def)

lemma ones_append [simp]: "ones (xs @ ys) = ones xs + ones ys"
  by (simp add: ones_def)

lemma ones_Nil [simp]: "ones [] = 0"
  by (simp add: ones_def)

lemma ones_take_Suc:
  "i < length xs \<Longrightarrow> ones (take (Suc i) xs) = ones (take i xs) + (if xs ! i then 1 else 0)"
  by (simp add: take_Suc_conv_app_nth ones_def)

lemma ones_take_add: "ones (take (a + i) xs) = ones (take a xs) + ones (take i (drop a xs))"
  by (simp add: take_add)

lemma ones_take_mono: "i \<le> j \<Longrightarrow> ones (take i xs) \<le> ones (take j xs)"
proof -
  assume "i \<le> j"
  then have "take j xs = take i xs @ take (j - i) (drop i xs)"
    by (metis le_add_diff_inverse take_add)
  then show ?thesis by simp
qed

lemma ones_take_less:
  assumes "i < j" "j \<le> length xs" "xs ! i"
  shows "ones (take i xs) < ones (take j xs)"
proof -
  from assms have "ones (take (Suc i) xs) = ones (take i xs) + 1"
    by (simp add: ones_take_Suc)
  moreover from assms have "ones (take (Suc i) xs) \<le> ones (take j xs)"
    by (intro ones_take_mono) simp
  ultimately show ?thesis by simp
qed

lemma lvl_root:
  "valid s \<Longrightarrow> L_of s \<noteq> [] \<Longrightarrow> lvl s 0 (kr_of s * kc_of s) (h_of s - 1)"
  by (simp add: valid_def lvl_def)

lemma lvl_leaf: "lvl s a n 0 \<Longrightarrow> a = length (T_of s) \<and> n = length (L_of s)"
  by (simp add: lvl_def)

lemma lvl_SucD:
  assumes "lvl s a n (Suc d)"
  shows "a + n \<le> length (T_of s)"
    and "a + n = kr_of s * kc_of s * (1 + ones (take a (T_of s)))"
    and "wf_chain (kr_of s * kc_of s) (kr_of s * kc_of s * ones (take n (drop a (T_of s)))) d
           (drop (a + n) (T_of s)) (length (L_of s))"
proof -
  from assms have a: "a \<le> length (T_of s)" and n: "n \<le> length (T_of s) - a"
    and e: "a + n = kr_of s * kc_of s * (1 + ones (take a (T_of s)))"
    and w: "wf_chain (kr_of s * kc_of s) (kr_of s * kc_of s * ones (take n (drop a (T_of s)))) d
           (drop n (drop a (T_of s))) (length (L_of s))"
    unfolding lvl_def wf_chain.simps length_drop by blast+
  from a n show "a + n \<le> length (T_of s)" by arith
  from e show "a + n = kr_of s * kc_of s * (1 + ones (take a (T_of s)))" .
  from w show "wf_chain (kr_of s * kc_of s) (kr_of s * kc_of s * ones (take n (drop a (T_of s)))) d
           (drop (a + n) (T_of s)) (length (L_of s))"
    by (simp add: add.commute)
qed

lemma lvl_inT: "lvl s a n (Suc d) \<Longrightarrow> i < n \<Longrightarrow> a + i < length (T_of s)"
  using lvl_SucD(1) [of s a n d] by arith

lemma lvl_next:
  assumes "lvl s a n (Suc d)"
  shows "lvl s (a + n) (next_n s a n) d"
proof -
  note D = lvl_SucD [OF assms]
  have "a + n + next_n s a n = kr_of s * kc_of s * (1 + ones (take (a + n) (T_of s)))"
    unfolding ones_take_add next_n_def using D(2) by (simp add: algebra_simps)
  with D(1,3) show ?thesis
    unfolding lvl_def next_n_def by blast
qed

lemma lvl_rank:
  assumes "lvl s a n (Suc d)" "i < n" "T_of s ! (a + i)"
  shows "rank (T_of s) (a + i + 1) * kr_of s * kc_of s = a + n + cidx s a i"
proof -
  from assms have "a + i < length (T_of s)" by (simp add: lvl_inT)
  then have "ones (take (Suc (a + i)) (T_of s)) = ones (take (a + i) (T_of s)) + 1"
    using assms(3) by (simp add: ones_take_Suc)
  then have "rank (T_of s) (a + i + 1) = ones (take a (T_of s)) + ones (take i (drop a (T_of s))) + 1"
    by (simp add: rank_ones ones_take_add)
  moreover from assms have "a + n = kr_of s * kc_of s * (1 + ones (take a (T_of s)))"
    by (simp add: lvl_SucD(2))
  ultimately show ?thesis
    by (simp add: cidx_def algebra_simps)
qed

lemma cidx_bound:
  assumes "lvl s a n (Suc d)" "i < n" "T_of s ! (a + i)" "slot < kr_of s * kc_of s"
  shows "cidx s a i + slot < next_n s a n"
proof -
  from lvl_SucD(1) [OF assms(1)] have "n \<le> length (drop a (T_of s))" by simp
  moreover from lvl_SucD(1) [OF assms(1)] assms have "drop a (T_of s) ! i" by simp
  ultimately have "ones (take i (drop a (T_of s))) < ones (take n (drop a (T_of s)))"
    using assms(2) by (intro ones_take_less) auto
  then have "Suc (ones (take i (drop a (T_of s)))) \<le> ones (take n (drop a (T_of s)))" by simp
  then have "kr_of s * kc_of s * Suc (ones (take i (drop a (T_of s))))
      \<le> kr_of s * kc_of s * ones (take n (drop a (T_of s)))"
    by (rule mult_le_mono2)
  with assms(4) show ?thesis
    by (simp add: cidx_def next_n_def)
qed

lemma cidx_mono:
  assumes "lvl s a n (Suc d)" "i < i'" "i' < n" "T_of s ! (a + i)"
  shows "cidx s a i + kr_of s * kc_of s \<le> cidx s a i'"
proof -
  from lvl_SucD(1) [OF assms(1)] have "n \<le> length (drop a (T_of s))" by simp
  moreover from lvl_SucD(1) [OF assms(1)] assms have "drop a (T_of s) ! i" by simp
  ultimately have "ones (take i (drop a (T_of s))) < ones (take i' (drop a (T_of s)))"
    using assms(2,3) by (intro ones_take_less) auto
  then have "Suc (ones (take i (drop a (T_of s)))) \<le> ones (take i' (drop a (T_of s)))" by simp
  then have "kr_of s * kc_of s * Suc (ones (take i (drop a (T_of s))))
      \<le> kr_of s * kc_of s * ones (take i' (drop a (T_of s)))"
    by (rule mult_le_mono2)
  then show ?thesis
    by (simp add: cidx_def)
qed

lemma slot_less: "(a::nat) < kr \<Longrightarrow> b < kc \<Longrightarrow> a * kc + b < kr * kc"
proof -
  assume a: "a < kr" and b: "b < kc"
  then have "a * kc + b < a * kc + kc" by simp
  also have "\<dots> = Suc a * kc" by simp
  also from a have "\<dots> \<le> kr * kc" by (intro mult_le_mono1) simp
  finally show ?thesis .
qed

lemma slot_eq:
  assumes "(a::nat) * kc + b = a' * kc + b'" "b < kc" "b' < kc"
  shows "a = a' \<and> b = b'"
proof -
  from assms have "(a * kc + b) div kc = (a' * kc + b') div kc" by simp
  with assms(2,3) have "a = a'" by simp
  with assms(1) show ?thesis by simp
qed

lemma slot_of_less:
  assumes "0 < kr" "0 < kc" "p < kr ^ Suc d" "q < kc ^ Suc d"
  shows "(p div kr ^ d) * kc + q div kc ^ d < kr * (kc::nat)"
proof -
  from assms have "p div kr ^ d < kr" by (intro less_mult_imp_div_less) (simp add: mult.commute)
  moreover from assms have "q div kc ^ d < kc" by (intro less_mult_imp_div_less) (simp add: mult.commute)
  ultimately show ?thesis by (rule slot_less)
qed

lemma pos_step:
  assumes "lvl s a n (Suc d)" "i < n" "T_of s ! (a + i)"
    "0 < kr_of s" "0 < kc_of s" "p < kr_of s ^ Suc d" "q < kc_of s ^ Suc d"
  shows "pos s (Suc d) p q (a + i) =
           pos s d (p mod kr_of s ^ d) (q mod kc_of s ^ d)
             (a + n + (cidx s a i + ((p div kr_of s ^ d) * kc_of s + q div kc_of s ^ d)))"
    and "cidx s a i + ((p div kr_of s ^ d) * kc_of s + q div kc_of s ^ d) < next_n s a n"
proof -
  show "pos s (Suc d) p q (a + i) =
           pos s d (p mod kr_of s ^ d) (q mod kc_of s ^ d)
             (a + n + (cidx s a i + ((p div kr_of s ^ d) * kc_of s + q div kc_of s ^ d)))"
    using assms(3) lvl_rank [OF assms(1-3)] by (simp add: add.assoc)
  show "cidx s a i + ((p div kr_of s ^ d) * kc_of s + q div kc_of s ^ d) < next_n s a n"
    using assms by (intro cidx_bound [OF assms(1-3)] slot_of_less)
qed

lemma pos_range:
  "lvl s a n d \<Longrightarrow> i < n \<Longrightarrow> 0 < kr_of s \<Longrightarrow> 0 < kc_of s \<Longrightarrow> p < kr_of s ^ d \<Longrightarrow> q < kc_of s ^ d \<Longrightarrow>
   pos s d p q (a + i) = Some y \<Longrightarrow> length (T_of s) \<le> y \<and> y < length (T_of s) + length (L_of s)"
proof (induction d arbitrary: a n i p q)
  case 0
  then show ?case using lvl_leaf [of s a n] by auto
next
  case (Suc d)
  from Suc.prems have t: "T_of s ! (a + i)" by (simp split: if_splits)
  note st = pos_step [OF Suc.prems(1,2) t Suc.prems(3,4,5,6)]
  show ?case
  proof (rule Suc.IH [OF lvl_next [OF Suc.prems(1)] st(2) Suc.prems(3,4)])
    show "p mod kr_of s ^ d < kr_of s ^ d" using Suc.prems(3) by simp
    show "q mod kc_of s ^ d < kc_of s ^ d" using Suc.prems(4) by simp
    show "pos s d (p mod kr_of s ^ d) (q mod kc_of s ^ d)
       (a + n + (cidx s a i + (p div kr_of s ^ d * kc_of s + q div kc_of s ^ d))) = Some y"
      using st(1) Suc.prems(7) by simp
  qed
qed

lemma pos_mono:
  "lvl s a n d \<Longrightarrow> i < i' \<Longrightarrow> i' < n \<Longrightarrow> 0 < kr_of s \<Longrightarrow> 0 < kc_of s \<Longrightarrow>
   p < kr_of s ^ d \<Longrightarrow> q < kc_of s ^ d \<Longrightarrow> p' < kr_of s ^ d \<Longrightarrow> q' < kc_of s ^ d \<Longrightarrow>
   pos s d p q (a + i) = Some y \<Longrightarrow> pos s d p' q' (a + i') = Some y' \<Longrightarrow> y < y'"
proof (induction d arbitrary: a n i i' p q p' q')
  case 0
  then show ?case by simp
next
  case (Suc d)
  from Suc.prems have t: "T_of s ! (a + i)" and t': "T_of s ! (a + i')"
    by (simp_all split: if_splits)
  from Suc.prems have i: "i < n" by simp
  note st = pos_step [OF Suc.prems(1) i t Suc.prems(4,5,6,7)]
  note st' = pos_step [OF Suc.prems(1) Suc.prems(3) t' Suc.prems(4,5,8,9)]
  let ?sl = "p div kr_of s ^ d * kc_of s + q div kc_of s ^ d"
  let ?sl' = "p' div kr_of s ^ d * kc_of s + q' div kc_of s ^ d"
  have "?sl < kr_of s * kc_of s"
    using Suc.prems by (intro slot_of_less) auto
  with cidx_mono [OF Suc.prems(1,2,3) t]
  have lt: "cidx s a i + ?sl < cidx s a i' + ?sl'" by linarith
  show ?case
  proof (rule Suc.IH [OF lvl_next [OF Suc.prems(1)] lt st'(2) Suc.prems(4,5)])
    show "p mod kr_of s ^ d < kr_of s ^ d" using Suc.prems(4) by simp
    show "q mod kc_of s ^ d < kc_of s ^ d" using Suc.prems(5) by simp
    show "p' mod kr_of s ^ d < kr_of s ^ d" using Suc.prems(4) by simp
    show "q' mod kc_of s ^ d < kc_of s ^ d" using Suc.prems(5) by simp
    show "pos s d (p mod kr_of s ^ d) (q mod kc_of s ^ d) (a + n + (cidx s a i + ?sl)) = Some y"
      using st(1) Suc.prems(10) by simp
    show "pos s d (p' mod kr_of s ^ d) (q' mod kc_of s ^ d) (a + n + (cidx s a i' + ?sl')) = Some y'"
      using st'(1) Suc.prems(11) by simp
  qed
qed

lemma pos_inj:
  "lvl s a n d \<Longrightarrow> i < n \<Longrightarrow> 0 < kr_of s \<Longrightarrow> 0 < kc_of s \<Longrightarrow>
   p < kr_of s ^ d \<Longrightarrow> q < kc_of s ^ d \<Longrightarrow> p' < kr_of s ^ d \<Longrightarrow> q' < kc_of s ^ d \<Longrightarrow>
   pos s d p q (a + i) = Some y \<Longrightarrow> pos s d p' q' (a + i) = Some y \<Longrightarrow> p = p' \<and> q = q'"
proof (induction d arbitrary: a n i p q p' q')
  case 0
  then show ?case by simp
next
  case (Suc d)
  from Suc.prems have t: "T_of s ! (a + i)"
    by (simp split: if_splits)
  note st = pos_step [OF Suc.prems(1,2) t Suc.prems(3,4,5,6)]
  note st' = pos_step [OF Suc.prems(1,2) t Suc.prems(3,4,7,8)]
  let ?sl = "p div kr_of s ^ d * kc_of s + q div kc_of s ^ d"
  let ?sl' = "p' div kr_of s ^ d * kc_of s + q' div kc_of s ^ d"
  note N = lvl_next [OF Suc.prems(1)]
  have m: "p mod kr_of s ^ d < kr_of s ^ d" "q mod kc_of s ^ d < kc_of s ^ d"
    "p' mod kr_of s ^ d < kr_of s ^ d" "q' mod kc_of s ^ d < kc_of s ^ d"
    using Suc.prems(3,4) by simp_all
  have e: "pos s d (p mod kr_of s ^ d) (q mod kc_of s ^ d) (a + n + (cidx s a i + ?sl)) = Some y"
    using st(1) Suc.prems(9) by simp
  have e': "pos s d (p' mod kr_of s ^ d) (q' mod kc_of s ^ d) (a + n + (cidx s a i + ?sl')) = Some y"
    using st'(1) Suc.prems(10) by simp
  have "\<not> ?sl < ?sl'"
  proof
    assume "?sl < ?sl'"
    then have "cidx s a i + ?sl < cidx s a i + ?sl'" by simp
    from pos_mono [OF N this st'(2) Suc.prems(3,4) m e e'] show False by simp
  qed
  moreover have "\<not> ?sl' < ?sl"
  proof
    assume "?sl' < ?sl"
    then have "cidx s a i + ?sl' < cidx s a i + ?sl" by simp
    from pos_mono [OF N this st(2) Suc.prems(3,4) m(3,4) m(1,2) e' e] show False by simp
  qed
  ultimately have sl: "?sl = ?sl'" by simp
  have "q div kc_of s ^ d < kc_of s" "q' div kc_of s ^ d < kc_of s"
    using Suc.prems(4,6,8) by (auto intro!: less_mult_imp_div_less simp: mult.commute)
  with sl have dv: "p div kr_of s ^ d = p' div kr_of s ^ d" "q div kc_of s ^ d = q' div kc_of s ^ d"
    using slot_eq by blast+
  from e' sl have "pos s d (p' mod kr_of s ^ d) (q' mod kc_of s ^ d) (a + n + (cidx s a i + ?sl)) = Some y"
    by simp
  from Suc.IH [OF N st(2) Suc.prems(3,4) m e this]
  have md: "p mod kr_of s ^ d = p' mod kr_of s ^ d" "q mod kc_of s ^ d = q' mod kc_of s ^ d"
    by simp_all
  from dv(1) md(1) have "p = p'" by (metis div_mult_mod_eq)
  moreover from dv(2) md(2) have "q = q'" by (metis div_mult_mod_eq)
  ultimately show ?case by simp
qed

lemma get_cellv:
  "lvl s a n d \<Longrightarrow> i < n \<Longrightarrow> 0 < kr_of s \<Longrightarrow> 0 < kc_of s \<Longrightarrow> p < kr_of s ^ d \<Longrightarrow> q < kc_of s ^ d \<Longrightarrow>
   get s (kr_of s ^ d) (kc_of s ^ d) p q (a + i) = Some (cellv s d p q (a + i))"
proof (induction d arbitrary: a n i p q)
  case 0
  then show ?case
    using lvl_leaf [of s a n]
    by (subst get.simps) (simp add: cellv_def nth_opt_def)
next
  case (Suc d)
  have inT: "a + i < length (T_of s)" using Suc.prems by (intro lvl_inT)
  show ?case
  proof (cases "T_of s ! (a + i)")
    case False
    with inT show ?thesis
      by (subst get.simps) (simp add: cellv_def)
  next
    case t: True
    note st = pos_step [OF Suc.prems(1,2) t Suc.prems(3,4,5,6)]
    have m: "p mod kr_of s ^ d < kr_of s ^ d" "q mod kc_of s ^ d < kc_of s ^ d"
      using Suc.prems(3,4) by simp_all
    note IH = Suc.IH [OF lvl_next [OF Suc.prems(1)] st(2) Suc.prems(3,4) m]
    have "get s (kr_of s ^ Suc d) (kc_of s ^ Suc d) p q (a + i) =
          get s (kr_of s ^ d) (kc_of s ^ d) (p mod kr_of s ^ d) (q mod kc_of s ^ d)
            (a + n + (cidx s a i + (p div kr_of s ^ d * kc_of s + q div kc_of s ^ d)))"
      using inT t Suc.prems(3,4) lvl_rank [OF Suc.prems(1,2) t]
      by (subst get.simps) (simp add: add.assoc)
    also note IH
    finally show ?thesis
      using st(1) by (simp add: cellv_def)
  qed
qed

lemma power_div_self: "0 < (k::nat) \<Longrightarrow> 1 \<le> h \<Longrightarrow> k ^ h div k = k ^ (h - 1)"
  by (cases h) simp_all

lemma valid_dims:
  assumes "valid s"
  shows "numRows_of s div kr_of s = kr_of s ^ (h_of s - 1)"
    and "numCols_of s div kc_of s = kc_of s ^ (h_of s - 1)"
    and "0 < kr_of s" and "0 < kc_of s"
    and "numRows_of s = kr_of s ^ Suc (h_of s - 1)"
    and "numCols_of s = kc_of s ^ Suc (h_of s - 1)"
  using assms by (auto simp: valid_def power_div_self)

lemma root_slot:
  assumes "valid s" "p < numRows_of s" "q < numCols_of s"
  shows "(p div kr_of s ^ (h_of s - 1)) * kc_of s + q div kc_of s ^ (h_of s - 1)
           < kr_of s * kc_of s"
    and "p mod kr_of s ^ (h_of s - 1) < kr_of s ^ (h_of s - 1)"
    and "q mod kc_of s ^ (h_of s - 1) < kc_of s ^ (h_of s - 1)"
proof -
  note D = valid_dims [OF assms(1)]
  from assms(2,3) D(5,6) have "p < kr_of s ^ Suc (h_of s - 1)" "q < kc_of s ^ Suc (h_of s - 1)"
    by simp_all
  with D(3,4) show "(p div kr_of s ^ (h_of s - 1)) * kc_of s + q div kc_of s ^ (h_of s - 1)
           < kr_of s * kc_of s"
    by (intro slot_of_less)
  from D(3,4) show "p mod kr_of s ^ (h_of s - 1) < kr_of s ^ (h_of s - 1)"
    "q mod kc_of s ^ (h_of s - 1) < kc_of s ^ (h_of s - 1)" by simp_all
qed

lemma getElement_cell:
  assumes "valid s" "p < numRows_of s" "q < numCols_of s"
  shows "getElement s p q = Some (cell s p q)"
proof (cases "L_of s = []")
  case True
  then show ?thesis by (simp add: getElement_def getInit_def cell_def)
next
  case False
  note D = valid_dims [OF assms(1)]
  note R = root_slot [OF assms]
  from get_cellv [OF lvl_root [OF assms(1) False] R(1) D(3,4) R(2,3)] False
  show ?thesis
    by (simp add: getElement_def getInit_def cell_def tpos_def cellv_def D(1,2))
qed

lemma tpos_range:
  assumes "valid s" "L_of s \<noteq> []" "p < numRows_of s" "q < numCols_of s" "tpos s p q = Some y"
  shows "length (T_of s) \<le> y \<and> y < length (T_of s) + length (L_of s)"
proof -
  note D = valid_dims [OF assms(1)]
  note R = root_slot [OF assms(1,3,4)]
  from pos_range [OF lvl_root [OF assms(1,2)] R(1) D(3,4) R(2,3)] assms(5)
  show ?thesis by (simp add: tpos_def)
qed

lemma div_mod_cong: "(p::nat) div m = p' div m \<Longrightarrow> p mod m = p' mod m \<Longrightarrow> p = p'"
  by (metis div_mult_mod_eq)

lemma tpos_inj:
  assumes "valid s" "L_of s \<noteq> []" "p < numRows_of s" "q < numCols_of s"
    "p' < numRows_of s" "q' < numCols_of s" "tpos s p q = Some y" "tpos s p' q' = Some y"
  shows "p = p' \<and> q = q'"
proof -
  note D = valid_dims [OF assms(1)]
  note R = root_slot [OF assms(1,3,4)]
  note R' = root_slot [OF assms(1,5,6)]
  note V = lvl_root [OF assms(1,2)]
  let ?d = "h_of s - 1"
  let ?sl = "p div kr_of s ^ ?d * kc_of s + q div kc_of s ^ ?d"
  let ?sl' = "p' div kr_of s ^ ?d * kc_of s + q' div kc_of s ^ ?d"
  have e: "pos s ?d (p mod kr_of s ^ ?d) (q mod kc_of s ^ ?d) (0 + ?sl) = Some y"
    using assms(7) by (simp add: tpos_def)
  have e': "pos s ?d (p' mod kr_of s ^ ?d) (q' mod kc_of s ^ ?d) (0 + ?sl') = Some y"
    using assms(8) by (simp add: tpos_def)
  have "\<not> ?sl < ?sl'"
  proof
    assume l: "?sl < ?sl'"
    from pos_mono [OF V l R'(1) D(3,4) R(2,3) R'(2,3) e e'] show False by simp
  qed
  moreover have "\<not> ?sl' < ?sl"
  proof
    assume l: "?sl' < ?sl"
    from pos_mono [OF V l R(1) D(3,4) R'(2,3) R(2,3) e' e] show False by simp
  qed
  ultimately have sl: "?sl = ?sl'" by simp
  have "q div kc_of s ^ ?d < kc_of s" "q' div kc_of s ^ ?d < kc_of s"
    using assms(4,6) D(4,6) by (auto intro!: less_mult_imp_div_less simp: mult.commute)
  with sl have dv: "p div kr_of s ^ ?d = p' div kr_of s ^ ?d" "q div kc_of s ^ ?d = q' div kc_of s ^ ?d"
    using slot_eq by blast+
  from e' sl have "pos s ?d (p' mod kr_of s ^ ?d) (q' mod kc_of s ^ ?d) (0 + ?sl) = Some y"
    by simp
  from pos_inj [OF V R(1) D(3,4) R(2,3) R'(2,3) e this]
  have md: "p mod kr_of s ^ ?d = p' mod kr_of s ^ ?d" "q mod kc_of s ^ ?d = q' mod kc_of s ^ ?d"
    by simp_all
  from dv(1) md(1) have "p = p'" by (rule div_mod_cong)
  moreover from dv(2) md(2) have "q = q'" by (rule div_mod_cong)
  ultimately show ?thesis by simp
qed

lemma set_cell_pos:
  "lvl s a n d \<Longrightarrow> i < n \<Longrightarrow> 0 < kr_of s \<Longrightarrow> 0 < kc_of s \<Longrightarrow> p < kr_of s ^ d \<Longrightarrow> q < kc_of s ^ d \<Longrightarrow>
   set_cell s (kr_of s ^ d) (kc_of s ^ d) p q (a + i) =
     Some (case pos s d p q (a + i) of None \<Rightarrow> s
           | Some y \<Rightarrow> s\<lparr>L_of := (L_of s)[y - length (T_of s) := null_of s]\<rparr>)"
proof (induction d arbitrary: a n i p q)
  case 0
  then show ?case
    using lvl_leaf [of s a n]
    by (subst set_cell.simps) simp
next
  case (Suc d)
  have inT: "a + i < length (T_of s)" using Suc.prems by (intro lvl_inT)
  show ?case
  proof (cases "T_of s ! (a + i)")
    case False
    with inT show ?thesis
      by (subst set_cell.simps) simp
  next
    case t: True
    note st = pos_step [OF Suc.prems(1,2) t Suc.prems(3,4,5,6)]
    have m: "p mod kr_of s ^ d < kr_of s ^ d" "q mod kc_of s ^ d < kc_of s ^ d"
      using Suc.prems(3,4) by simp_all
    note IH = Suc.IH [OF lvl_next [OF Suc.prems(1)] st(2) Suc.prems(3,4) m]
    have "set_cell s (kr_of s ^ Suc d) (kc_of s ^ Suc d) p q (a + i) =
          set_cell s (kr_of s ^ d) (kc_of s ^ d) (p mod kr_of s ^ d) (q mod kc_of s ^ d)
            (a + n + (cidx s a i + (p div kr_of s ^ d * kc_of s + q div kc_of s ^ d)))"
      using inT t Suc.prems(3,4) lvl_rank [OF Suc.prems(1,2) t]
      by (subst set_cell.simps) (simp add: add.assoc)
    also note IH
    finally show ?thesis
      using st(1) by simp
  qed
qed

lemma setNull_tpos:
  assumes "valid s" "p < numRows_of s" "q < numCols_of s"
  shows "setNull s p q =
     Some (if L_of s = [] then s
           else case tpos s p q of None \<Rightarrow> s
                | Some y \<Rightarrow> s\<lparr>L_of := (L_of s)[y - length (T_of s) := null_of s]\<rparr>)"
proof (cases "L_of s = []")
  case True
  then show ?thesis by (simp add: setNull_def setInit_def)
next
  case False
  note D = valid_dims [OF assms(1)]
  note R = root_slot [OF assms]
  from set_cell_pos [OF lvl_root [OF assms(1) False] R(1) D(3,4) R(2,3)] False
  show ?thesis
    by (simp add: setNull_def setInit_def tpos_def D(1,2))
qed

lemma pos_L_update [simp]: "pos (s\<lparr>L_of := L'\<rparr>) d p q z = pos s d p q z"
  by (induction d arbitrary: p q z) simp_all

lemma tpos_L_update [simp]: "tpos (s\<lparr>L_of := L'\<rparr>) p q = tpos s p q"
  by (simp add: tpos_def)

lemma valid_L_update:
  "valid s \<Longrightarrow> length L' = length (L_of s) \<Longrightarrow> valid (s\<lparr>L_of := L'\<rparr>)"
  by (auto simp: valid_def)

subsection \<open>setNull\<close>

text \<open>
  C9: on an object that satisfies the invariant, \<open>setNull(i, j)\<close> on a cell in range
  returns, leaves \<open>T_\<close>, \<open>h_\<close>, \<open>kr_\<close>, \<open>kc_\<close>, \<open>numRows_\<close>, \<open>numCols_\<close> and the
  length of \<open>L_\<close> as they were, makes \<open>getElement(i, j)\<close> return the null element and
  does not change what \<open>getElement\<close> returns for any other cell in range.
\<close>

theorem setNull_frame:
  assumes "valid s" "i < numRows_of s" "j < numCols_of s"
  shows "\<exists>s'. setNull s i j = Some s' \<and>
           T_of s' = T_of s \<and> h_of s' = h_of s \<and> kr_of s' = kr_of s \<and> kc_of s' = kc_of s \<and>
           numRows_of s' = numRows_of s \<and> numCols_of s' = numCols_of s \<and>
           length (L_of s') = length (L_of s) \<and>
           getElement s' i j = Some (null_of s) \<and>
           (\<forall>i' j'. i' < numRows_of s \<and> j' < numCols_of s \<and> (i', j') \<noteq> (i, j) \<longrightarrow>
              getElement s' i' j' = getElement s i' j')"
proof (cases "L_of s = [] \<or> tpos s i j = None")
  case True
  with setNull_tpos [OF assms] have s': "setNull s i j = Some s" by auto
  from True have "cell s i j = null_of s" by (auto simp: cell_def)
  with s' getElement_cell [OF assms] show ?thesis by simp
next
  case False
  then obtain y where L: "L_of s \<noteq> []" and y: "tpos s i j = Some y" by auto
  let ?s' = "s\<lparr>L_of := (L_of s)[y - length (T_of s) := null_of s]\<rparr>"
  from setNull_tpos [OF assms] L y have s': "setNull s i j = Some ?s'" by simp
  have v': "valid ?s'" using assms(1) by (intro valid_L_update) simp_all
  note yr = tpos_range [OF assms(1) L assms(2,3) y]
  from yr have yl: "y - length (T_of s) < length (L_of s)" by arith
  have g: "getElement ?s' i j = Some (null_of s)"
    using getElement_cell [OF v', of i j] assms(2,3) L y yl by (simp add: cell_def)
  have f: "getElement ?s' i' j' = getElement s i' j'"
    if "i' < numRows_of s" "j' < numCols_of s" "(i', j') \<noteq> (i, j)" for i' j'
  proof (cases "tpos s i' j'")
    case None
    with getElement_cell [OF v', of i' j'] getElement_cell [OF assms(1), of i' j'] that L
    show ?thesis by (simp add: cell_def)
  next
    case (Some y')
    from that(3) tpos_inj [OF assms(1) L that(1,2) assms(2,3) Some] y have "y' \<noteq> y" by auto
    moreover note tpos_range [OF assms(1) L that(1,2) Some] yr
    ultimately have "y' - length (T_of s) \<noteq> y - length (T_of s)" by arith
    with getElement_cell [OF v', of i' j'] getElement_cell [OF assms(1), of i' j'] that L Some
    show ?thesis by (simp add: cell_def)
  qed
  from s' g f show ?thesis by simp
qed

theorem setNull_frame_witness:
  "valid \<lparr>T_of = [True, True, False, True],
          L_of = [1, 0, 0, 0, 0, 0, 0, 1, 0, 0, 1, 0 :: int], h_of = 2, kr_of = 2, kc_of = 2,
          numRows_of = 4, numCols_of = 4, null_of = 0\<rparr> \<and>
   (\<exists>s'. setNull \<lparr>T_of = [True, True, False, True],
          L_of = [1, 0, 0, 0, 0, 0, 0, 1, 0, 0, 1, 0 :: int], h_of = 2, kr_of = 2, kc_of = 2,
          numRows_of = 4, numCols_of = 4, null_of = 0\<rparr> 1 3 = Some s' \<and>
      T_of s' = [True, True, False, True] \<and> length (L_of s') = 12 \<and>
      getElement s' 1 3 = Some 0 \<and> getElement s' 3 2 = Some 1)"
proof -
  let ?s = "\<lparr>T_of = [True, True, False, True],
          L_of = [1, 0, 0, 0, 0, 0, 0, 1, 0, 0, 1, 0 :: int], h_of = 2, kr_of = 2, kc_of = 2,
          numRows_of = 4, numCols_of = 4, null_of = 0\<rparr>"
  have v: "valid ?s" by code_simp
  have g: "getElement ?s 3 2 = Some 1" by code_simp
  from setNull_frame [OF v, of 1 3] obtain s' where
    s': "setNull ?s 1 3 = Some s'" "T_of s' = T_of ?s" "length (L_of s') = length (L_of ?s)"
      "getElement s' 1 3 = Some (null_of ?s)"
      "\<forall>i' j'. i' < numRows_of ?s \<and> j' < numCols_of ?s \<and> (i', j') \<noteq> (1, 3) \<longrightarrow>
              getElement s' i' j' = getElement ?s i' j'"
    by auto
  from s'(5) have "getElement s' 3 2 = getElement ?s 3 2" by simp
  with g s' v show ?thesis by auto
qed

lemma for_loop_append:
  "for_loop (xs @ ys) body s = Option.bind (for_loop xs body s) (for_loop ys body)"
proof (induction xs arbitrary: s)
  case Nil
  show ?case by simp
next
  case (Cons x xs)
  show ?case by (cases "body x s") (simp_all add: Cons.IH)
qed

lemma bind_for_loop_Nil [simp]: "Option.bind m (for_loop [] body) = m"
  by (cases m) simp_all

lemma for_loop_snoc:
  "for_loop (xs @ [x]) body s = Option.bind (for_loop xs body s) (body x)"
  by (cases "for_loop xs body s") (simp_all add: for_loop_append)

lemma map_filter_upt_mult:
  "map f (filter P [0..<k * m]) =
     concat (map (\<lambda>j. map (\<lambda>c. f (j * m + c)) (filter (\<lambda>c. P (j * m + c)) [0..<m])) [0..<k])"
proof (induction k)
  case 0
  show ?case by simp
next
  case (Suc k)
  have "[0..<k * m + m] = [0..<k * m] @ [k * m..<k * m + m]"
    by (rule upt_add_eq_append) simp
  moreover have "[k * m..<k * m + m] = map (\<lambda>c. k * m + c) [0..<m]"
    using map_add_upt [of "k * m" m] by (simp add: add.commute)
  ultimately have "[0..<Suc k * m] = [0..<k * m] @ map (\<lambda>c. k * m + c) [0..<m]"
    by (simp add: add.commute)
  then have "map f (filter P [0..<Suc k * m]) =
      map f (filter P [0..<k * m]) @ map (\<lambda>c. f (k * m + c)) (filter (\<lambda>c. P (k * m + c)) [0..<m])"
    by (simp add: filter_map comp_def)
  with Suc show ?case by simp
qed

lemma cellv_Suc:
  assumes "c < kc_of s ^ d"
  shows "cellv s (Suc d) p (j * kc_of s ^ d + c) z =
           (if T_of s ! z then
              cellv s d (p mod kr_of s ^ d) c
                (rank (T_of s) (z + 1) * kr_of s * kc_of s + kc_of s * (p div kr_of s ^ d) + j)
            else null_of s)"
proof -
  from assms have "kc_of s ^ d \<noteq> 0" by (cases "kc_of s ^ d") simp_all
  with assms have "(j * kc_of s ^ d + c) div kc_of s ^ d = j" "(j * kc_of s ^ d + c) mod kc_of s ^ d = c"
    by simp_all
  then show ?thesis
    by (simp add: cellv_def mult.commute)
qed

lemma rowCols_Suc:
  "rowCols s (Suc d) p dq z =
     (if T_of s ! z then
        concat (map (\<lambda>j. rowCols s d (p mod kr_of s ^ d) (dq + j * kc_of s ^ d)
                  (rank (T_of s) (z + 1) * kr_of s * kc_of s + kc_of s * (p div kr_of s ^ d) + j))
          [0..<kc_of s])
      else [])"
proof -
  have "rowCols s (Suc d) p dq z =
     concat (map (\<lambda>j. map (\<lambda>c. dq + (j * kc_of s ^ d + c))
       (filter (\<lambda>c. cellv s (Suc d) p (j * kc_of s ^ d + c) z \<noteq> null_of s) [0..<kc_of s ^ d]))
       [0..<kc_of s])"
    unfolding rowCols_def power_Suc by (rule map_filter_upt_mult)
  also have "\<dots> = concat (map (\<lambda>j. map (\<lambda>c. dq + (j * kc_of s ^ d + c))
       (filter (\<lambda>c. (if T_of s ! z then
              cellv s d (p mod kr_of s ^ d) c
                (rank (T_of s) (z + 1) * kr_of s * kc_of s + kc_of s * (p div kr_of s ^ d) + j)
            else null_of s) \<noteq> null_of s) [0..<kc_of s ^ d]))
       [0..<kc_of s])"
    by (intro arg_cong [where f = concat] map_cong refl arg_cong [where f = "map _"] filter_cong)
       (simp add: cellv_Suc)
  also have "\<dots> = (if T_of s ! z then
        concat (map (\<lambda>j. rowCols s d (p mod kr_of s ^ d) (dq + j * kc_of s ^ d)
                  (rank (T_of s) (z + 1) * kr_of s * kc_of s + kc_of s * (p div kr_of s ^ d) + j))
          [0..<kc_of s])
      else [])"
    by (simp add: rowCols_def add.assoc)
  finally show ?thesis .
qed

lemma pushSubrows_loop:
  "for_loop [0..<m]
     (\<lambda>j (newDq, y', queue'). Some (newDq + nc, Suc y', queue' @ [(newDq, y')])) (dq, y, queue) =
   Some (dq + m * nc, y + m, queue @ map (\<lambda>j. (dq + j * nc, y + j)) [0..<m])"
  by (induction m) (simp_all add: for_loop_snoc)

lemma pushSubrows_eq:
  "pushSubrows s nc dq y queue = Some (queue @ map (\<lambda>j. (dq + j * nc, y + j)) [0..<kc_of s])"
  by (simp add: pushSubrows_def pushSubrows_loop)

lemma levelPass_eq:
  "\<forall>e \<in> set Q. snd e < length (T_of s) \<Longrightarrow>
   levelPass s nr nc relP Q nxt = Some (nxt @ concat (map (subrows s nr nc relP) Q))"
proof (induction Q arbitrary: nxt)
  case Nil
  show ?case by simp
next
  case (Cons e Q)
  obtain dq z where e: "e = (dq, z)" by (cases e)
  from Cons.prems e have z: "z < length (T_of s)" by simp
  from Cons.prems have "\<forall>e \<in> set Q. snd e < length (T_of s)" by simp
  note IH = Cons.IH [OF this]
  show ?case
    using z by (simp add: e nth_opt_def pushSubrows_eq IH subrows_def)
qed

lemma QV_subrows:
  "QV s d (p mod kr_of s ^ d) (concat (map (subrows s (kr_of s ^ d) (kc_of s ^ d) p) Q)) =
   QV s (Suc d) p Q"
proof (induction Q)
  case Nil
  show ?case by (simp add: QV_def)
next
  case (Cons e Q)
  have "QV s d (p mod kr_of s ^ d) (subrows s (kr_of s ^ d) (kc_of s ^ d) p e) =
        rowCols s (Suc d) p (fst e) (snd e)"
    by (simp add: QV_def subrows_def rowCols_Suc comp_def)
  with Cons show ?case
    by (simp add: QV_def)
qed

lemma qinv_subrows:
  assumes "lvl s a n (Suc d)" "qinv a n Q" "0 < kc_of s" "p < kr_of s ^ Suc d"
  shows "qinv (a + n) (next_n s a n) (concat (map (subrows s (kr_of s ^ d) (kc_of s ^ d) p) Q))"
  unfolding qinv_def
proof
  fix e' assume "e' \<in> set (concat (map (subrows s (kr_of s ^ d) (kc_of s ^ d) p) Q))"
  then obtain e where e: "e \<in> set Q" and e': "e' \<in> set (subrows s (kr_of s ^ d) (kc_of s ^ d) p e)"
    by auto
  from e assms(2) obtain i where i: "i < n" "snd e = a + i" by (auto simp: qinv_def)
  from e' have t: "T_of s ! (a + i)" by (simp add: subrows_def i split: if_splits)
  from e' t i obtain j where j: "j < kc_of s"
    "snd e' = rank (T_of s) (a + i + 1) * kr_of s * kc_of s + kc_of s * (p div kr_of s ^ d) + j"
    by (auto simp: subrows_def)
  from assms(3,4) have "p div kr_of s ^ d < kr_of s"
    by (intro less_mult_imp_div_less) (simp add: mult.commute)
  from slot_less [OF this j(1)] have sl: "kc_of s * (p div kr_of s ^ d) + j < kr_of s * kc_of s"
    by (simp add: mult.commute)
  from cidx_bound [OF assms(1) i(1) t sl] lvl_rank [OF assms(1) i(1) t] j(2)
  show "\<exists>i'<next_n s a n. snd e' = a + n + i'"
    by (intro exI [of _ "cidx s a i + (kc_of s * (p div kr_of s ^ d) + j)"]) simp
qed

lemma qinv_inT:
  assumes "lvl s a n (Suc d)" "qinv a n Q"
  shows "\<forall>e \<in> set Q. snd e < length (T_of s)"
proof
  fix e assume "e \<in> set Q"
  with assms(2) obtain i where "i < n" "snd e = a + i" by (auto simp: qinv_def)
  with lvl_inT [OF assms(1)] show "snd e < length (T_of s)" by simp
qed

lemma levelLoop_eq:
  "lvl s a n (Suc d) \<Longrightarrow> qinv a n Q \<Longrightarrow> 2 \<le> kr_of s \<Longrightarrow> 0 < kc_of s \<Longrightarrow> p < kr_of s ^ Suc d \<Longrightarrow>
   \<exists>a' n' p' Q'. levelLoop s (kr_of s ^ d) (kc_of s ^ d) p Q = Some (1, 1, p', Q') \<and>
      lvl s a' n' (Suc 0) \<and> qinv a' n' Q' \<and> p' < kr_of s \<and> QV s (Suc 0) p' Q' = QV s (Suc d) p Q"
proof (induction d arbitrary: a n p Q)
  case 0
  have "levelLoop s (kr_of s ^ 0) (kc_of s ^ 0) p Q = Some (1, 1, p, Q)"
    by (subst levelLoop.simps) simp
  moreover from 0 have "p < kr_of s" by simp
  ultimately show ?case
    using 0(1,2) by blast
next
  case (Suc d)
  let ?Q = "concat (map (subrows s (kr_of s ^ Suc d) (kc_of s ^ Suc d) p) Q)"
  from Suc.prems have "1 < kr_of s" by simp
  then have gt: "1 < kr_of s ^ Suc d"
    by (rule one_less_power) simp
  from Suc.prems have k0: "0 < kr_of s" by simp
  have lp: "levelPass s (kr_of s ^ Suc d) (kc_of s ^ Suc d) p Q [] = Some ?Q"
    using levelPass_eq [OF qinv_inT [OF Suc.prems(1,2)]] by simp
  have q: "qinv (a + n) (next_n s a n) ?Q"
    using Suc.prems by (intro qinv_subrows) auto
  have m: "p mod kr_of s ^ Suc d < kr_of s ^ Suc d" using k0 by simp
  from Suc.IH [OF lvl_next [OF Suc.prems(1)] q Suc.prems(3,4) m]
  obtain a' n' p' Q' where
    r: "levelLoop s (kr_of s ^ d) (kc_of s ^ d) (p mod kr_of s ^ Suc d) ?Q = Some (1, 1, p', Q')"
      "lvl s a' n' (Suc 0)" "qinv a' n' Q'" "p' < kr_of s"
      "QV s (Suc 0) p' Q' = QV s (Suc d) (p mod kr_of s ^ Suc d) ?Q"
    by blast
  have "levelLoop s (kr_of s ^ Suc d) (kc_of s ^ Suc d) p Q = Some (1, 1, p', Q')"
    using gt lp r(1) k0 Suc.prems(4) by (subst levelLoop.simps) simp
  moreover have "QV s (Suc 0) p' Q' = QV s (Suc (Suc d)) p Q"
    using r(5) QV_subrows [of s "Suc d" p Q] by simp
  ultimately show ?case using r(2,3,4) by blast
qed

lemma leafSubrows_loop:
  "\<forall>j<m. y + j < length (L_of s) \<Longrightarrow>
   for_loop [0..<m]
     (\<lambda>j (newDq, y', succs').
        map_option (\<lambda>v. (newDq + nc, Suc y',
                          if v \<noteq> null_of s then succs' @ [newDq] else succs'))
          (nth_opt (L_of s) y'))
     (dq, y, succs) =
   Some (dq + m * nc, y + m,
         succs @ map (\<lambda>j. dq + j * nc) (filter (\<lambda>j. L_of s ! (y + j) \<noteq> null_of s) [0..<m]))"
proof (induction m)
  case 0
  show ?case by simp
next
  case (Suc m)
  from Suc.prems have "\<forall>j<m. y + j < length (L_of s)" and "y + m < length (L_of s)" by simp_all
  with Suc.IH show ?case
    by (simp add: for_loop_snoc nth_opt_def)
qed

lemma leafSubrows_eq:
  "\<forall>j<kc_of s. y + j < length (L_of s) \<Longrightarrow>
   leafSubrows s nc dq y succs =
     Some (succs @ map (\<lambda>j. dq + j * nc)
             (filter (\<lambda>j. L_of s ! (y + j) \<noteq> null_of s) [0..<kc_of s]))"
  by (simp add: leafSubrows_def leafSubrows_loop)

lemma cellv_1:
  "cellv s (Suc 0) p c z =
     (if T_of s ! z then
        L_of s ! (rank (T_of s) (z + 1) * kr_of s * kc_of s + p * kc_of s + c - length (T_of s))
      else null_of s)"
  by (simp add: cellv_def)

lemma leafPass_eq:
  assumes "lvl s a n (Suc 0)" "0 < kr_of s" "0 < kc_of s" "p < kr_of s"
  shows "qinv a n Q \<Longrightarrow> leafPass s 1 1 p Q succs = Some (succs @ QV s (Suc 0) p Q)"
proof (induction Q arbitrary: succs)
  case Nil
  show ?case by (simp add: QV_def)
next
  case (Cons e Q)
  obtain dq z where e: "e = (dq, z)" by (cases e)
  from Cons.prems e obtain i where i: "i < n" "z = a + i" by (auto simp: qinv_def)
  from Cons.prems have "qinv a n Q" by (simp add: qinv_def)
  note IH = Cons.IH [OF this]
  have z: "z < length (T_of s)" using lvl_inT [OF assms(1) i(1)] i(2) by simp
  have QVc: "QV s (Suc 0) p (e # Q) = rowCols s (Suc 0) p dq z @ QV s (Suc 0) p Q"
    by (simp add: QV_def e)
  show ?case
  proof (cases "T_of s ! z")
    case False
    then have "rowCols s (Suc 0) p dq z = []"
      by (simp add: rowCols_def cellv_1)
    with False z IH QVc show ?thesis
      by (simp add: e nth_opt_def)
  next
    case True
    then have t: "T_of s ! (a + i)" using i by simp
    from lvl_leaf [OF lvl_next [OF assms(1)]]
    have an: "a + n = length (T_of s)" and nn: "next_n s a n = length (L_of s)" by simp_all
    let ?y = "cidx s a i + kc_of s * p"
    have r: "rank (T_of s) (z + 1) * kr_of s * kc_of s = length (T_of s) + cidx s a i"
      using lvl_rank [OF assms(1) i(1) t] an i(2) by simp
    have b: "\<forall>j<kc_of s. ?y + j < length (L_of s)"
    proof (intro allI impI)
      fix j assume j: "j < kc_of s"
      from slot_less [OF assms(4) j] have "kc_of s * p + j < kr_of s * kc_of s"
        by (simp add: mult.commute)
      from cidx_bound [OF assms(1) i(1) t this] nn show "?y + j < length (L_of s)"
        by (simp add: add.assoc)
    qed
    have so: "sub_opt (rank (T_of s) (z + 1) * kr_of s * kc_of s + kc_of s * (p div 1))
               (length (T_of s)) = Some ?y"
      using r by (simp add: sub_opt_def)
    have rc: "rowCols s (Suc 0) p dq z =
        map (\<lambda>j. dq + j * 1) (filter (\<lambda>j. L_of s ! (?y + j) \<noteq> null_of s) [0..<kc_of s])"
      using True r by (simp add: rowCols_def cellv_1 add.assoc mult.commute)
    have "leafPass s 1 1 p (e # Q) succs =
        leafPass s 1 1 p Q (succs @ rowCols s (Suc 0) p dq z)"
      using z True so leafSubrows_eq [OF b, of 1 dq succs] rc
      by (simp add: e nth_opt_def)
    with IH QVc show ?thesis by simp
  qed
qed

lemma valid_T_cases:
  assumes "valid s" "L_of s \<noteq> []"
  shows "(T_of s = [] \<and> h_of s = 1 \<and> length (L_of s) = kr_of s * kc_of s) \<or>
         (T_of s \<noteq> [] \<and> (\<exists>d. h_of s - 1 = Suc d))"
proof (cases "h_of s - 1")
  case 0
  with assms show ?thesis by (auto simp: valid_def)
next
  case (Suc d)
  from assms have "0 < kr_of s * kc_of s" by (simp add: valid_def)
  moreover from assms Suc have "kr_of s * kc_of s \<le> length (T_of s)" by (simp add: valid_def)
  ultimately have "T_of s \<noteq> []" by auto
  with Suc show ?thesis by simp
qed

lemma row_loop:
  "\<forall>i<m. off + i < length (L_of s) \<Longrightarrow>
   for_loop [0..<m]
     (\<lambda>i succs'. map_option (\<lambda>v. if v \<noteq> null_of s then succs' @ [i] else succs')
                    (nth_opt (L_of s) (off + i))) succs =
   Some (succs @ filter (\<lambda>i. L_of s ! (off + i) \<noteq> null_of s) [0..<m])"
proof (induction m)
  case 0
  show ?case by simp
next
  case (Suc m)
  from Suc.prems have "\<forall>i<m. off + i < length (L_of s)" and "off + m < length (L_of s)" by simp_all
  with Suc.IH show ?case
    by (simp add: for_loop_snoc nth_opt_def)
qed

lemma cell_h1:
  assumes "h_of s = 1" "T_of s = []" "L_of s \<noteq> []"
  shows "cell s p c = L_of s ! (p * kc_of s + c)"
  using assms by (simp add: cell_def tpos_def)

lemma getSuccessorPositions_rowOf:
  assumes "valid s" "p < numRows_of s"
  shows "getSuccessorPositions s p = Some (rowOf s p)"
proof (cases "L_of s = []")
  case True
  then show ?thesis
    by (simp add: getSuccessorPositions_def allSuccessorPositionsIterative_def rowOf_def cell_def)
next
  case L: False
  note D = valid_dims [OF assms(1)]
  from valid_T_cases [OF assms(1) L] show ?thesis
  proof (elim disjE conjE exE)
    assume T: "T_of s = []" and h: "h_of s = 1" and len: "length (L_of s) = kr_of s * kc_of s"
    from assms h have nR: "numRows_of s = kr_of s" and nC: "numCols_of s = kc_of s"
      by (simp_all add: valid_def)
    have b: "\<forall>i<numCols_of s. p * numCols_of s + i < length (L_of s)"
      using slot_less [of p "kr_of s" _ "kc_of s"] assms(2) nR nC len by simp
    show ?thesis
      using L T row_loop [OF b, of "[]"]
      by (simp add: getSuccessorPositions_def allSuccessorPositionsIterative_def rowOf_def
          cell_h1 [OF h T L] nC)
  next
    fix d assume T: "T_of s \<noteq> []" and hd: "h_of s - 1 = Suc d"
    let ?nr = "kr_of s ^ Suc d" and ?nc = "kc_of s ^ Suc d"
    let ?Q0 = "map (\<lambda>j. (0 + j * ?nc, kc_of s * (p div ?nr) + j)) [0..<kc_of s]"
    from lvl_root [OF assms(1) L] hd have V: "lvl s 0 (kr_of s * kc_of s) (Suc d)" by simp
    from assms(1) have kr2: "2 \<le> kr_of s" by (simp add: valid_def)
    from assms(2) have "p < kr_of s ^ Suc (h_of s - 1)" unfolding D(5) [symmetric] .
    then have pb: "p < kr_of s ^ Suc (Suc d)" unfolding hd .
    then have pd: "p div ?nr < kr_of s"
      by (intro less_mult_imp_div_less) (simp add: mult.commute)
    have q0: "qinv 0 (kr_of s * kc_of s) ?Q0"
      unfolding qinv_def
    proof
      fix e assume "e \<in> set ?Q0"
      then obtain j where j: "j < kc_of s" "snd e = kc_of s * (p div ?nr) + j" by auto
      from slot_less [OF pd j(1)] j(2)
      show "\<exists>i<kr_of s * kc_of s. snd e = 0 + i"
        by (simp add: mult.commute)
    qed
    have m: "p mod ?nr < kr_of s ^ Suc d" using D(3) by simp
    from levelLoop_eq [OF V q0 kr2 D(4) m] obtain a' n' p' Q' where
      r: "levelLoop s (kr_of s ^ d) (kc_of s ^ d) (p mod ?nr) ?Q0 = Some (1, 1, p', Q')"
        "lvl s a' n' (Suc 0)" "qinv a' n' Q'" "p' < kr_of s"
        "QV s (Suc 0) p' Q' = QV s (Suc d) (p mod ?nr) ?Q0"
      by blast
    have lp: "leafPass s 1 1 p' Q' [] = Some (QV s (Suc d) (p mod ?nr) ?Q0)"
      using leafPass_eq [OF r(2) D(3,4) r(4) r(3), of "[]"] r(5) by simp
    have "getSuccessorPositions s p = Some (QV s (Suc d) (p mod ?nr) ?Q0)"
      using L T r(1) lp D(1,2,3,4) hd
      by (simp add: getSuccessorPositions_def allSuccessorPositionsIterative_def pushSubrows_eq
          Let_def)
    moreover have "rowOf s p = QV s (Suc d) (p mod ?nr) ?Q0"
    proof -
      have "numCols_of s = kc_of s * ?nc"
        unfolding D(6) hd by simp
      then have "rowOf s p = map (\<lambda>c. c) (filter (\<lambda>c. cell s p c \<noteq> null_of s) [0..<kc_of s * ?nc])"
        by (simp add: rowOf_def)
      also have "\<dots> = concat (map (\<lambda>j. map (\<lambda>c. j * ?nc + c)
          (filter (\<lambda>c. cell s p (j * ?nc + c) \<noteq> null_of s) [0..<?nc])) [0..<kc_of s])"
        by (rule map_filter_upt_mult)
      also have "\<dots> = concat (map (\<lambda>j. map (\<lambda>c. j * ?nc + c)
          (filter (\<lambda>c. cellv s (Suc d) (p mod ?nr) c (kc_of s * (p div ?nr) + j) \<noteq> null_of s)
             [0..<?nc])) [0..<kc_of s])"
      proof (intro arg_cong [where f = concat] map_cong refl arg_cong [where f = "map _"] filter_cong)
        fix j c assume "c \<in> set [0..<?nc]"
        then have c: "c < ?nc" by simp
        from D(4) have "?nc \<noteq> 0" by simp
        with c have "(j * ?nc + c) div ?nc = j" "(j * ?nc + c) mod ?nc = c" by simp_all
        then show "(cell s p (j * ?nc + c) \<noteq> null_of s) =
           (cellv s (Suc d) (p mod ?nr) c (kc_of s * (p div ?nr) + j) \<noteq> null_of s)"
          using L hd by (simp add: cell_def tpos_def cellv_def mult.commute)
      qed
      also have "\<dots> = QV s (Suc d) (p mod ?nr) ?Q0"
        by (simp add: QV_def rowCols_def comp_def)
      finally show ?thesis .
    qed
    ultimately show ?thesis by simp
  qed
qed

subsection \<open>getSuccessorPositions\<close>

text \<open>
  C3: on an object that satisfies the invariant, \<open>getSuccessorPositions(i)\<close> returns for
  every row \<open>i < numRows\<close>; the list is strictly ascending and its entries are exactly the
  columns \<open>j < numCols\<close> for which \<open>getElement(i, j)\<close> is not the null element.
\<close>

theorem getSuccessorPositions_correct:
  assumes "valid s" "i < numRows_of s"
  shows "\<exists>succs. getSuccessorPositions s i = Some succs \<and> sorted_wrt (<) succs \<and>
           set succs = {j. j < numCols_of s \<and> getElement s i j \<noteq> Some (null_of s)}"
proof -
  have "sorted_wrt (<) (rowOf s i)"
    unfolding rowOf_def by (intro sorted_wrt_filter) simp
  moreover have "set (rowOf s i) = {j. j < numCols_of s \<and> getElement s i j \<noteq> Some (null_of s)}"
    using getElement_cell [OF assms] by (auto simp: rowOf_def)
  ultimately show ?thesis
    using getSuccessorPositions_rowOf [OF assms] by simp
qed

lemma scenarioA_built:
  "KrKcTree_matrix [[1, 0, 0, 0], [0, 0, 0, 1], [0, 0, 0, 0], [0, 0, 1, 0]] 2 2 0 = Some scenarioA"
  by code_simp

lemma scenarioA_valid: "valid scenarioA"
  by code_simp

theorem getSuccessorPositions_correct_witness:
  "valid scenarioA \<and> 1 < numRows_of scenarioA \<and>
   getSuccessorPositions scenarioA 1 = Some [3] \<and>
   set [3] = {j. j < numCols_of scenarioA \<and> getElement scenarioA 1 j \<noteq> Some (null_of scenarioA)}"
proof -
  have r: "1 < numRows_of scenarioA" by (simp add: scenarioA_def)
  have e: "getSuccessorPositions scenarioA 1 = Some [3]" by code_simp
  from getSuccessorPositions_correct [OF scenarioA_valid r] e scenarioA_valid r
  show ?thesis by auto
qed

lemma work_pos: "0 < work kc d"
  by (cases d) simp_all

lemma FV_done: "j_of f = kc_of s \<Longrightarrow> FV s d f = []"
  by (simp add: FV_def)

lemma FV_unfold:
  assumes "j_of f < kc_of s"
  shows "FV s d f = rowCols s d (p_of f) (dq_of f) (z_of f) @ FV s d (advance f)"
proof -
  from assms obtain m where m: "kc_of s - j_of f = Suc m" "kc_of s - Suc (j_of f) = m"
    by (cases "kc_of s - j_of f") auto
  have "[0..<Suc m] = 0 # map Suc [0..<m]"
    by (simp add: upt_conv_Cons map_Suc_upt del: upt_Suc)
  then show ?thesis
    by (simp add: FV_def m advance_def comp_def add.assoc add.commute add.left_commute
        del: upt_Suc)
qed

lemma rowCols_0:
  "rowCols s 0 p dq z = (if L_of s ! (z - length (T_of s)) \<noteq> null_of s then [dq] else [])"
  by (simp add: rowCols_def cellv_def)

lemma finv_advance:
  "finv s d f \<Longrightarrow> j_of f < kc_of s \<Longrightarrow> finv s d (advance f)"
  unfolding finv_def advance_def by (elim exE conjE) (intro exI conjI, simp_all)

lemma finv_child:
  assumes "finv s (Suc d) f" "j_of f < kc_of s" "T_of s ! z_of f" "0 < kr_of s"
  shows "finv s d \<lparr>nr_of = nr_of f div kr_of s, nc_of = nc_of f div kc_of s,
                p_of = p_of f mod (nr_of f div kr_of s), dq_of = dq_of f,
                z_of = rank (T_of s) (z_of f + 1) * kr_of s * kc_of s
                         + kc_of s * (p_of f div (nr_of f div kr_of s)),
                j_of = 0\<rparr>"
proof -
  from assms(1) obtain a n i0 where
    f: "lvl s a n (Suc d)" "nr_of f = kr_of s ^ Suc d" "nc_of f = kc_of s ^ Suc d"
      "p_of f < kr_of s ^ Suc d" "z_of f = a + i0 + j_of f" "i0 + kc_of s \<le> n"
    unfolding finv_def by blast
  from assms(2) have kc: "0 < kc_of s" by simp
  let ?i = "i0 + j_of f"
  from f(6) assms(2) have i: "?i < n" by simp
  from assms(3) f(5) have t: "T_of s ! (a + ?i)" by (simp add: add.assoc)
  from f(4) assms(4) have pd: "p_of f div kr_of s ^ d < kr_of s"
    by (intro less_mult_imp_div_less) (simp add: mult.commute)
  have "kc_of s - 1 < kc_of s" using kc by simp
  from slot_less [OF pd this]
  have "kc_of s * (p_of f div kr_of s ^ d) + (kc_of s - 1) < kr_of s * kc_of s"
    by (simp add: mult.commute)
  from cidx_bound [OF f(1) i t this] kc
  have b: "cidx s a ?i + kc_of s * (p_of f div kr_of s ^ d) + kc_of s \<le> next_n s a n"
    by simp
  have r: "rank (T_of s) (z_of f + 1) * kr_of s * kc_of s = a + n + cidx s a ?i"
    using lvl_rank [OF f(1) i t] f(5) by (simp add: add.assoc)
  show ?thesis
    unfolding finv_def
    apply (rule exI [of _ "a + n"], rule exI [of _ "next_n s a n"],
           rule exI [of _ "cidx s a ?i + kc_of s * (p_of f div kr_of s ^ d)"])
    using lvl_next [OF f(1)] f(2,3) assms(4) kc b r
    by (simp add: add.assoc)
qed

lemma FV_child:
  assumes "nr_of f = kr_of s ^ Suc d" "nc_of f = kc_of s ^ Suc d" "0 < kr_of s" "0 < kc_of s"
  shows "FV s d \<lparr>nr_of = nr_of f div kr_of s, nc_of = nc_of f div kc_of s,
                p_of = p_of f mod (nr_of f div kr_of s), dq_of = dq_of f,
                z_of = rank (T_of s) (z_of f + 1) * kr_of s * kc_of s
                         + kc_of s * (p_of f div (nr_of f div kr_of s)),
                j_of = 0\<rparr> =
         (if T_of s ! z_of f then rowCols s (Suc d) (p_of f) (dq_of f) (z_of f) else
            FV s d \<lparr>nr_of = nr_of f div kr_of s, nc_of = nc_of f div kc_of s,
                p_of = p_of f mod (nr_of f div kr_of s), dq_of = dq_of f,
                z_of = rank (T_of s) (z_of f + 1) * kr_of s * kc_of s
                         + kc_of s * (p_of f div (nr_of f div kr_of s)),
                j_of = 0\<rparr>)"
  using assms by (simp add: FV_def rowCols_Suc)

lemma stackLoop_eq:
  "\<forall>(f, d) \<in> set fds. finv s d f \<Longrightarrow> 0 < kr_of s \<Longrightarrow> 0 < kc_of s \<Longrightarrow>
   stackLoop s (map fst fds) =
     Some (first_or (numCols_of s) (concat (map (\<lambda>(f, d). FV s d f) fds)))"
proof (induction fds rule: measure_induct_rule [where f = "msr s"])
  case (less fds)
  show ?case
  proof (cases fds)
    case Nil
    then show ?thesis
      by (subst stackLoop.simps) (simp add: first_or_def)
  next
    case (Cons fd rest)
    obtain cur d where fd: "fd = (cur, d)" by (cases fd)
    from less.prems(1) Cons fd have fi: "finv s d cur"
      and ri: "\<forall>(f, d) \<in> set rest. finv s d f" by simp_all
    let ?SV = "\<lambda>fds. concat (map (\<lambda>(f, d). FV s d f) fds)"
    show ?thesis
    proof (cases "j_of cur = kc_of s")
      case True
      have "msr s rest < msr s fds" by (simp add: msr_def Cons fd)
      from less.IH [OF this ri less.prems(2,3)]
      have "stackLoop s (map fst rest) = Some (first_or (numCols_of s) (?SV rest))" .
      moreover have "?SV fds = ?SV rest" by (simp add: Cons fd FV_done [OF True])
      moreover have "stackLoop s (map fst fds) = stackLoop s (map fst rest)"
        using True by (subst stackLoop.simps) (simp add: Cons fd)
      ultimately show ?thesis by simp
    next
      case False
      from fi obtain a n i0 where
        f: "lvl s a n d" "nr_of cur = kr_of s ^ d" "nc_of cur = kc_of s ^ d"
          "p_of cur < kr_of s ^ d" "j_of cur \<le> kc_of s" "z_of cur = a + i0 + j_of cur"
          "i0 + kc_of s \<le> n"
        unfolding finv_def by blast
      from False f(5) have j: "j_of cur < kc_of s" by simp
      from f(6,7) j have zi: "z_of cur = a + (i0 + j_of cur)" "i0 + j_of cur < n" by simp_all
      note U = FV_unfold [OF j, where d = d]
      have adv: "\<forall>(f, d) \<in> set ((advance cur, d) # rest). finv s d f"
        using ri finv_advance [OF fi j] by simp
      have madv: "msr s ((advance cur, d) # rest) < msr s fds"
      proof -
        from j have "kc_of s - j_of cur = Suc (kc_of s - (j_of cur + 1))" by simp
        then show ?thesis
          using work_pos [of "kc_of s" d] by (simp add: msr_def Cons fd advance_def)
      qed
      note IHadv = less.IH [OF madv adv less.prems(2,3)]
      show ?thesis
      proof (cases d)
        case 0
        from f(1) 0 lvl_leaf [of s a n] have an: "a = length (T_of s)" "n = length (L_of s)"
          by simp_all
        from zi an have zge: "z_of cur \<ge> length (T_of s)"
          and zl: "z_of cur - length (T_of s) < length (L_of s)" by simp_all
        show ?thesis
        proof (cases "L_of s ! (z_of cur - length (T_of s)) \<noteq> null_of s")
          case True
          then have "?SV fds = dq_of cur # FV s d (advance cur) @ ?SV rest"
            using U by (simp add: Cons fd 0 rowCols_0)
          moreover have "stackLoop s (map fst fds) = Some (dq_of cur)"
            using False zge zl True by (subst stackLoop.simps) (simp add: Cons fd nth_opt_def)
          ultimately show ?thesis by (simp add: first_or_def)
        next
          case nn: False
          then have "?SV fds = ?SV ((advance cur, d) # rest)"
            using U by (simp add: Cons fd 0 rowCols_0)
          moreover have "stackLoop s (map fst fds) = stackLoop s (map fst ((advance cur, d) # rest))"
            using False zge zl nn by (subst stackLoop.simps) (simp add: Cons fd nth_opt_def)
          ultimately show ?thesis using IHadv by simp
        qed
      next
        case (Suc d')
        from f(1) Suc zi have zlt: "\<not> z_of cur \<ge> length (T_of s)"
          using lvl_inT [of s a n d' "i0 + j_of cur"] by simp
        show ?thesis
        proof (cases "T_of s ! z_of cur")
          case nt: False
          then have "?SV fds = ?SV ((advance cur, d) # rest)"
            using U by (simp add: Cons fd Suc rowCols_Suc)
          moreover have "stackLoop s (map fst fds) = stackLoop s (map fst ((advance cur, d) # rest))"
            using False zlt nt by (subst stackLoop.simps) (simp add: Cons fd)
          ultimately show ?thesis using IHadv by simp
        next
          case t: True
          let ?c = "\<lparr>nr_of = nr_of cur div kr_of s, nc_of = nc_of cur div kc_of s,
                p_of = p_of cur mod (nr_of cur div kr_of s), dq_of = dq_of cur,
                z_of = rank (T_of s) (z_of cur + 1) * kr_of s * kc_of s
                         + kc_of s * (p_of cur div (nr_of cur div kr_of s)),
                j_of = 0\<rparr>"
          let ?fds' = "(?c, d') # (advance cur, d) # rest"
          have ci: "finv s d' ?c"
            using fi Suc by (intro finv_child [OF _ j t less.prems(2)]) simp
          have inv': "\<forall>(f, d) \<in> set ?fds'. finv s d f"
            using adv ci by simp
          have m': "msr s ?fds' < msr s fds"
          proof -
            from j have "kc_of s - j_of cur = Suc (kc_of s - (j_of cur + 1))" by simp
            then show ?thesis
              by (simp add: msr_def Cons fd advance_def Suc)
          qed
          have "FV s d' ?c = rowCols s (Suc d') (p_of cur) (dq_of cur) (z_of cur)"
            using FV_child [of cur s d'] f(2,3) Suc less.prems(2,3) t by simp
          then have "?SV fds = ?SV ?fds'"
            using U by (simp add: Cons fd Suc)
          moreover have "stackLoop s (map fst fds) = stackLoop s (map fst ?fds')"
            using False zlt t by (subst stackLoop.simps) (simp add: Cons fd)
          ultimately show ?thesis using less.IH [OF m' inv' less.prems(2,3)] by simp
        qed
      qed
    qed
  qed
qed

lemma firstInRow_eq:
  "\<forall>i \<in> set xs. off + i < length (L_of s) \<Longrightarrow>
   firstInRow s off xs =
     Some (first_or (numCols_of s) (filter (\<lambda>i. L_of s ! (off + i) \<noteq> null_of s) xs))"
  by (induction xs) (simp_all add: first_or_def nth_opt_def)

lemma rowOf_root:
  assumes "valid s" "L_of s \<noteq> []" "h_of s - 1 = Suc d"
  shows "rowOf s p =
     concat (map (\<lambda>j. rowCols s (Suc d) (p mod kr_of s ^ Suc d) (j * kc_of s ^ Suc d)
                  (kc_of s * (p div kr_of s ^ Suc d) + j)) [0..<kc_of s])"
proof -
  note D = valid_dims [OF assms(1)]
  let ?nr = "kr_of s ^ Suc d" and ?nc = "kc_of s ^ Suc d"
  have "numCols_of s = kc_of s * ?nc"
    unfolding D(6) assms(3) by simp
  then have "rowOf s p = map (\<lambda>c. c) (filter (\<lambda>c. cell s p c \<noteq> null_of s) [0..<kc_of s * ?nc])"
    by (simp add: rowOf_def)
  also have "\<dots> = concat (map (\<lambda>j. map (\<lambda>c. j * ?nc + c)
      (filter (\<lambda>c. cell s p (j * ?nc + c) \<noteq> null_of s) [0..<?nc])) [0..<kc_of s])"
    by (rule map_filter_upt_mult)
  also have "\<dots> = concat (map (\<lambda>j. map (\<lambda>c. j * ?nc + c)
      (filter (\<lambda>c. cellv s (Suc d) (p mod ?nr) c (kc_of s * (p div ?nr) + j) \<noteq> null_of s)
         [0..<?nc])) [0..<kc_of s])"
  proof (intro arg_cong [where f = concat] map_cong refl arg_cong [where f = "map _"] filter_cong)
    fix j c assume "c \<in> set [0..<?nc]"
    then have c: "c < ?nc" by simp
    from D(4) have "?nc \<noteq> 0" by simp
    with c have "(j * ?nc + c) div ?nc = j" "(j * ?nc + c) mod ?nc = c" by simp_all
    then show "(cell s p (j * ?nc + c) \<noteq> null_of s) =
       (cellv s (Suc d) (p mod ?nr) c (kc_of s * (p div ?nr) + j) \<noteq> null_of s)"
      using assms(2,3) by (simp add: cell_def tpos_def cellv_def mult.commute)
  qed
  also have "\<dots> = concat (map (\<lambda>j. rowCols s (Suc d) (p mod ?nr) (j * ?nc)
                  (kc_of s * (p div ?nr) + j)) [0..<kc_of s])"
    by (simp add: rowCols_def)
  finally show ?thesis .
qed

lemma getFirstSuccessor_rowOf:
  assumes "valid s" "p < numRows_of s"
  shows "getFirstSuccessor s p = Some (first_or (numCols_of s) (rowOf s p))"
proof (cases "L_of s = []")
  case True
  then show ?thesis
    by (simp add: getFirstSuccessor_def firstSuccessorPositionIterative_def rowOf_def cell_def
        first_or_def)
next
  case L: False
  note D = valid_dims [OF assms(1)]
  from valid_T_cases [OF assms(1) L] show ?thesis
  proof (elim disjE conjE exE)
    assume T: "T_of s = []" and h: "h_of s = 1" and len: "length (L_of s) = kr_of s * kc_of s"
    from assms h have nR: "numRows_of s = kr_of s" and nC: "numCols_of s = kc_of s"
      by (simp_all add: valid_def)
    have b: "\<forall>i \<in> set [0..<numCols_of s]. p * numCols_of s + i < length (L_of s)"
      using slot_less [of p "kr_of s" _ "kc_of s"] assms(2) nR nC len by simp
    show ?thesis
      using L T firstInRow_eq [OF b]
      by (simp add: getFirstSuccessor_def firstSuccessorPositionIterative_def rowOf_def
          cell_h1 [OF h T L] nC)
  next
    fix d assume T: "T_of s \<noteq> []" and hd: "h_of s - 1 = Suc d"
    let ?nr = "kr_of s ^ Suc d" and ?nc = "kc_of s ^ Suc d"
    let ?f0 = "\<lparr>nr_of = ?nr, nc_of = ?nc, p_of = p mod ?nr, dq_of = 0,
                z_of = kc_of s * (p div ?nr), j_of = 0\<rparr>"
    from lvl_root [OF assms(1) L] hd have V: "lvl s 0 (kr_of s * kc_of s) (Suc d)" by simp
    from assms(2) have "p < kr_of s ^ Suc (h_of s - 1)" unfolding D(5) [symmetric] .
    then have pb: "p < kr_of s ^ Suc (Suc d)" unfolding hd .
    then have pd: "p div ?nr < kr_of s"
      by (intro less_mult_imp_div_less) (simp add: mult.commute)
    then have "Suc (p div ?nr) \<le> kr_of s" by simp
    then have "Suc (p div ?nr) * kc_of s \<le> kr_of s * kc_of s" by (rule mult_le_mono1)
    then have le: "kc_of s * (p div ?nr) + kc_of s \<le> kr_of s * kc_of s"
      by (simp add: mult.commute)
    have f0: "finv s (Suc d) ?f0"
      unfolding finv_def
      apply (rule exI [of _ 0], rule exI [of _ "kr_of s * kc_of s"],
             rule exI [of _ "kc_of s * (p div ?nr)"])
      using V D(3) le by simp
    from stackLoop_eq [of "[(?f0, Suc d)]" s] f0 D(3,4)
    have "stackLoop s [?f0] = Some (first_or (numCols_of s) (FV s (Suc d) ?f0))" by simp
    moreover have "FV s (Suc d) ?f0 = rowOf s p"
      by (simp add: FV_def rowOf_root [OF assms(1) L hd])
    ultimately show ?thesis
      using L T D(1,2) hd
      by (simp add: getFirstSuccessor_def firstSuccessorPositionIterative_def)
  qed
qed

lemma Min_strict_sorted:
  "sorted_wrt (<) xs \<Longrightarrow> xs \<noteq> [] \<Longrightarrow> Min (set xs) = hd (xs :: nat list)"
  by (cases xs) (auto intro!: Min_eqI dest: less_imp_le)

subsection \<open>getFirstSuccessor\<close>

text \<open>
  C6: on an object that satisfies the invariant and for every row \<open>i < numRows\<close>, both
  functions return, and \<open>getFirstSuccessor(i)\<close> is the least entry of
  \<open>getSuccessorPositions(i)\<close> when that list is not empty and \<open>numCols\<close> when it is.
\<close>

theorem getFirstSuccessor_correct:
  assumes "valid s" "i < numRows_of s"
  shows "\<exists>succs. getSuccessorPositions s i = Some succs \<and>
           getFirstSuccessor s i =
             Some (if succs = [] then numCols_of s else Min (set succs))"
proof -
  have so: "sorted_wrt (<) (rowOf s i)"
    unfolding rowOf_def by (intro sorted_wrt_filter) simp
  have "first_or (numCols_of s) (rowOf s i) =
          (if rowOf s i = [] then numCols_of s else Min (set (rowOf s i)))"
    using Min_strict_sorted [OF so] by (cases "rowOf s i") (simp_all add: first_or_def)
  with getFirstSuccessor_rowOf [OF assms] getSuccessorPositions_rowOf [OF assms]
  show ?thesis by simp
qed

theorem getFirstSuccessor_correct_witness:
  "valid scenarioA \<and> 1 < numRows_of scenarioA \<and> 2 < numRows_of scenarioA \<and>
   getSuccessorPositions scenarioA 1 = Some [3] \<and> getFirstSuccessor scenarioA 1 = Some 3 \<and>
   getSuccessorPositions scenarioA 2 = Some [] \<and>
   getFirstSuccessor scenarioA 2 = Some (numCols_of scenarioA)"
proof -
  have r: "1 < numRows_of scenarioA" "2 < numRows_of scenarioA" by (simp_all add: scenarioA_def)
  have e: "getSuccessorPositions scenarioA 1 = Some [3]" "getSuccessorPositions scenarioA 2 = Some []"
    by code_simp+
  from getFirstSuccessor_correct [OF scenarioA_valid r(1)]
       getFirstSuccessor_correct [OF scenarioA_valid r(2)] e scenarioA_valid r
  show ?thesis by auto
qed

lemma for_loop_collect:
  "\<forall>x \<in> set xs. \<forall>acc. body x acc = Some (acc @ f x) \<Longrightarrow>
   for_loop xs body acc = Some (acc @ concat (map f xs))"
  by (induction xs arbitrary: acc) simp_all

lemma colRows_Suc:
  assumes "0 < kr_of s"
  shows "colRows s (Suc d) q dp z =
     (if T_of s ! z then
        concat (map (\<lambda>i. colRows s d (q mod kc_of s ^ d) (dp + kr_of s ^ d * i)
                  (rank (T_of s) (z + 1) * kr_of s * kc_of s + q div kc_of s ^ d + i * kc_of s))
          [0..<kr_of s])
      else [])"
proof -
  let ?m = "kr_of s ^ d"
  from assms have m0: "?m \<noteq> 0" by simp
  have "colRows s (Suc d) q dp z =
     concat (map (\<lambda>i. map (\<lambda>r. dp + (i * ?m + r))
       (filter (\<lambda>r. cellv s (Suc d) (i * ?m + r) q z \<noteq> null_of s) [0..<?m]))
       [0..<kr_of s])"
    unfolding colRows_def power_Suc by (rule map_filter_upt_mult)
  also have "\<dots> = concat (map (\<lambda>i. map (\<lambda>r. dp + (i * ?m + r))
       (filter (\<lambda>r. (if T_of s ! z then
              cellv s d r (q mod kc_of s ^ d)
                (rank (T_of s) (z + 1) * kr_of s * kc_of s + q div kc_of s ^ d + i * kc_of s)
            else null_of s) \<noteq> null_of s) [0..<?m]))
       [0..<kr_of s])"
  proof (intro arg_cong [where f = concat] map_cong refl arg_cong [where f = "map _"] filter_cong)
    fix i r assume "r \<in> set [0..<?m]"
    then have r: "r < ?m" by simp
    with m0 have "(i * ?m + r) div ?m = i" "(i * ?m + r) mod ?m = r" by simp_all
    then show "(cellv s (Suc d) (i * ?m + r) q z \<noteq> null_of s) =
       ((if T_of s ! z then
              cellv s d r (q mod kc_of s ^ d)
                (rank (T_of s) (z + 1) * kr_of s * kc_of s + q div kc_of s ^ d + i * kc_of s)
            else null_of s) \<noteq> null_of s)"
      by (simp add: cellv_def add.assoc add.commute add.left_commute)
  qed
  also have "\<dots> = (if T_of s ! z then
        concat (map (\<lambda>i. colRows s d (q mod kc_of s ^ d) (dp + kr_of s ^ d * i)
                  (rank (T_of s) (z + 1) * kr_of s * kc_of s + q div kc_of s ^ d + i * kc_of s))
          [0..<kr_of s])
      else [])"
    by (simp add: colRows_def add.assoc mult.commute)
  finally show ?thesis .
qed

lemma predecessorsPos_eq:
  "lvl s a n d \<Longrightarrow> i < n \<Longrightarrow> 0 < kr_of s \<Longrightarrow> 0 < kc_of s \<Longrightarrow> q < kc_of s ^ d \<Longrightarrow>
   predecessorsPos s preds (kr_of s ^ d) (kc_of s ^ d) q p (a + i) =
     Some (preds @ colRows s d q p (a + i))"
proof (induction d arbitrary: a n i q p preds)
  case 0
  then show ?case
    using lvl_leaf [of s a n]
    by (subst predecessorsPos.simps) (simp add: colRows_def cellv_def nth_opt_def)
next
  case (Suc d)
  have inT: "a + i < length (T_of s)" using Suc.prems by (intro lvl_inT)
  show ?case
  proof (cases "T_of s ! (a + i)")
    case False
    with inT show ?thesis
      by (subst predecessorsPos.simps) (simp add: colRows_Suc [OF Suc.prems(3)])
  next
    case t: True
    from Suc.prems(4,5) have qd: "q div kc_of s ^ d < kc_of s"
      by (intro less_mult_imp_div_less) (simp add: mult.commute)
    have m: "q mod kc_of s ^ d < kc_of s ^ d" using Suc.prems(4) by simp
    have r: "rank (T_of s) (a + i + 1) * kr_of s * kc_of s = a + n + cidx s a i"
      by (rule lvl_rank [OF Suc.prems(1,2) t])
    have body: "\<forall>x \<in> set [0..<kr_of s]. \<forall>acc.
        predecessorsPos s acc (kr_of s ^ d) (kc_of s ^ d) (q mod kc_of s ^ d)
          (p + kr_of s ^ d * x)
          (rank (T_of s) (a + i + 1) * kr_of s * kc_of s + q div kc_of s ^ d + x * kc_of s) =
        Some (acc @ colRows s d (q mod kc_of s ^ d) (p + kr_of s ^ d * x)
          (rank (T_of s) (a + i + 1) * kr_of s * kc_of s + q div kc_of s ^ d + x * kc_of s))"
    proof (intro ballI allI)
      fix x acc assume "x \<in> set [0..<kr_of s]"
      then have x: "x < kr_of s" by simp
      from slot_less [OF x qd] have sl: "x * kc_of s + q div kc_of s ^ d < kr_of s * kc_of s" .
      from cidx_bound [OF Suc.prems(1,2) t sl]
      have b: "cidx s a i + (x * kc_of s + q div kc_of s ^ d) < next_n s a n" .
      from Suc.IH [OF lvl_next [OF Suc.prems(1)] b Suc.prems(3,4) m,
          of acc "p + kr_of s ^ d * x"]
      show "predecessorsPos s acc (kr_of s ^ d) (kc_of s ^ d) (q mod kc_of s ^ d)
          (p + kr_of s ^ d * x)
          (rank (T_of s) (a + i + 1) * kr_of s * kc_of s + q div kc_of s ^ d + x * kc_of s) =
        Some (acc @ colRows s d (q mod kc_of s ^ d) (p + kr_of s ^ d * x)
          (rank (T_of s) (a + i + 1) * kr_of s * kc_of s + q div kc_of s ^ d + x * kc_of s))"
        unfolding r by (simp add: add.assoc add.commute add.left_commute)
    qed
    have "predecessorsPos s preds (kr_of s ^ Suc d) (kc_of s ^ Suc d) q p (a + i) =
        for_loop [0..<kr_of s]
          (\<lambda>x preds'. predecessorsPos s preds' (kr_of s ^ d) (kc_of s ^ d) (q mod kc_of s ^ d)
             (p + kr_of s ^ d * x)
             (rank (T_of s) (a + i + 1) * kr_of s * kc_of s + q div kc_of s ^ d + x * kc_of s))
          preds"
      using inT t Suc.prems(3,4) by (subst predecessorsPos.simps) simp
    also note for_loop_collect [OF body]
    finally show ?thesis
      using t by (simp add: colRows_Suc [OF Suc.prems(3)])
  qed
qed

lemma colOf_root:
  assumes "valid s" "L_of s \<noteq> []"
  shows "colOf s q =
     concat (map (\<lambda>i. colRows s (h_of s - 1) (q mod kc_of s ^ (h_of s - 1))
                  (kr_of s ^ (h_of s - 1) * i)
                  (q div kc_of s ^ (h_of s - 1) + i * kc_of s)) [0..<kr_of s])"
proof -
  note D = valid_dims [OF assms(1)]
  let ?nr = "kr_of s ^ (h_of s - 1)" and ?nc = "kc_of s ^ (h_of s - 1)"
  from D(3) have m0: "?nr \<noteq> 0" by simp
  have "numRows_of s = kr_of s * ?nr"
    unfolding D(5) by simp
  then have "colOf s q = map (\<lambda>r. r) (filter (\<lambda>r. cell s r q \<noteq> null_of s) [0..<kr_of s * ?nr])"
    by (simp add: colOf_def)
  also have "\<dots> = concat (map (\<lambda>i. map (\<lambda>r. i * ?nr + r)
      (filter (\<lambda>r. cell s (i * ?nr + r) q \<noteq> null_of s) [0..<?nr])) [0..<kr_of s])"
    by (rule map_filter_upt_mult)
  also have "\<dots> = concat (map (\<lambda>i. map (\<lambda>r. i * ?nr + r)
      (filter (\<lambda>r. cellv s (h_of s - 1) r (q mod ?nc) (q div ?nc + i * kc_of s) \<noteq> null_of s)
         [0..<?nr])) [0..<kr_of s])"
  proof (intro arg_cong [where f = concat] map_cong refl arg_cong [where f = "map _"] filter_cong)
    fix i r assume "r \<in> set [0..<?nr]"
    then have r: "r < ?nr" by simp
    with m0 have "(i * ?nr + r) div ?nr = i" "(i * ?nr + r) mod ?nr = r" by simp_all
    then show "(cell s (i * ?nr + r) q \<noteq> null_of s) =
       (cellv s (h_of s - 1) r (q mod ?nc) (q div ?nc + i * kc_of s) \<noteq> null_of s)"
      using assms(2) by (simp add: cell_def tpos_def cellv_def add.commute)
  qed
  also have "\<dots> = concat (map (\<lambda>i. colRows s (h_of s - 1) (q mod ?nc) (?nr * i)
                  (q div ?nc + i * kc_of s)) [0..<kr_of s])"
    by (simp add: colRows_def mult.commute)
  finally show ?thesis .
qed

lemma getPredecessorPositions_colOf:
  assumes "valid s" "q < numCols_of s"
  shows "getPredecessorPositions s q = Some (colOf s q)"
proof (cases "L_of s = []")
  case True
  then show ?thesis
    by (simp add: getPredecessorPositions_def predecessorsPosInit_def colOf_def cell_def)
next
  case L: False
  note D = valid_dims [OF assms(1)]
  let ?d = "h_of s - 1"
  note V = lvl_root [OF assms(1) L]
  from assms(2) have "q < kc_of s ^ Suc ?d" unfolding D(6) [symmetric] .
  then have qd: "q div kc_of s ^ ?d < kc_of s"
    by (intro less_mult_imp_div_less) (simp add: mult.commute)
  have m: "q mod kc_of s ^ ?d < kc_of s ^ ?d" using D(4) by simp
  have body: "\<forall>x \<in> set [0..<kr_of s]. \<forall>acc.
      predecessorsPos s acc (kr_of s ^ ?d) (kc_of s ^ ?d) (q mod kc_of s ^ ?d)
        (kr_of s ^ ?d * x) (q div kc_of s ^ ?d + x * kc_of s) =
      Some (acc @ colRows s ?d (q mod kc_of s ^ ?d) (kr_of s ^ ?d * x)
        (q div kc_of s ^ ?d + x * kc_of s))"
  proof (intro ballI allI)
    fix x acc assume "x \<in> set [0..<kr_of s]"
    then have x: "x < kr_of s" by simp
    from slot_less [OF x qd] have sl: "q div kc_of s ^ ?d + x * kc_of s < kr_of s * kc_of s"
      by (simp add: add.commute)
    from predecessorsPos_eq [OF V sl D(3,4) m, of acc "kr_of s ^ ?d * x"]
    show "predecessorsPos s acc (kr_of s ^ ?d) (kc_of s ^ ?d) (q mod kc_of s ^ ?d)
        (kr_of s ^ ?d * x) (q div kc_of s ^ ?d + x * kc_of s) =
      Some (acc @ colRows s ?d (q mod kc_of s ^ ?d) (kr_of s ^ ?d * x)
        (q div kc_of s ^ ?d + x * kc_of s))"
      by simp
  qed
  show ?thesis
    using L for_loop_collect [OF body, of "[]"] colOf_root [OF assms(1) L, of q]
    by (simp add: getPredecessorPositions_def predecessorsPosInit_def D(1,2))
qed

subsection \<open>getPredecessorPositions\<close>

text \<open>
  C7: on an object that satisfies the invariant and for all \<open>i < numRows\<close>, \<open>j < numCols\<close>,
  \<open>getPredecessorPositions(j)\<close> and \<open>getSuccessorPositions(i)\<close> return, and \<open>i\<close> is among
  the predecessors of \<open>j\<close> exactly when \<open>j\<close> is among the successors of \<open>i\<close>.
\<close>

theorem predecessor_symmetry:
  assumes "valid s" "i < numRows_of s" "j < numCols_of s"
  shows "\<exists>preds succs. getPredecessorPositions s j = Some preds \<and>
           getSuccessorPositions s i = Some succs \<and>
           (i \<in> set preds \<longleftrightarrow> j \<in> set succs)"
  using getPredecessorPositions_colOf [OF assms(1,3)] getSuccessorPositions_rowOf [OF assms(1,2)]
    assms(2,3)
  by (simp add: colOf_def rowOf_def)

theorem predecessor_symmetry_witness:
  "valid scenarioA \<and> 3 < numRows_of scenarioA \<and> 2 < numCols_of scenarioA \<and>
   getPredecessorPositions scenarioA 2 = Some [3] \<and>
   getSuccessorPositions scenarioA 3 = Some [2] \<and> (3 \<in> set [3::nat] \<longleftrightarrow> 2 \<in> set [2::nat])"
proof -
  have r: "3 < numRows_of scenarioA" "2 < numCols_of scenarioA" by (simp_all add: scenarioA_def)
  have e: "getPredecessorPositions scenarioA 2 = Some [3]"
    "getSuccessorPositions scenarioA 3 = Some [2]"
    by code_simp+
  from predecessor_symmetry [OF scenarioA_valid r] e scenarioA_valid r
  show ?thesis by auto
qed

lemma highPrime_less: "0 < m \<Longrightarrow> highPrime i p2 m < m"
  by (simp add: highPrime_def)

lemma same_div_le:
  assumes "(a::nat) div m = b div m"
  shows "a \<le> b \<longleftrightarrow> a mod m \<le> b mod m"
proof -
  define x where "x = m * (a div m)"
  have "a = x + a mod m" by (simp add: x_def)
  moreover have "b = x + b mod m" unfolding x_def assms by simp
  ultimately show ?thesis by linarith
qed

lemma less_div_le:
  assumes "(a::nat) div m < b div m" "0 < m"
  shows "a \<le> b"
proof -
  define x y where "x = m * (a div m)" and "y = m * (b div m)"
  from assms(1) have "Suc (a div m) \<le> b div m" by simp
  then have "m * Suc (a div m) \<le> m * (b div m)" by (rule mult_le_mono2)
  then have "x + m \<le> y" by (simp add: x_def y_def)
  moreover have "a mod m < m" using assms(2) by simp
  moreover have "a = x + a mod m" "b = y + b mod m" by (simp_all add: x_def y_def)
  ultimately show ?thesis by linarith
qed

lemma lowPrime_le_highPrime:
  assumes "0 < m" "p1 \<le> p2" "p1 div m \<le> i" "i \<le> p2 div m"
  shows "lowPrime i p1 m \<le> highPrime i p2 m"
proof (cases "i = p1 div m")
  case False
  then show ?thesis by (simp add: lowPrime_def)
next
  case i1: True
  show ?thesis
  proof (cases "i = p2 div m")
    case False
    have "p1 mod m < m" using assms(1) by simp
    then show ?thesis using False i1 by (simp add: lowPrime_def highPrime_def)
  next
    case True
    with i1 have e: "p1 div m = p2 div m" by simp
    from same_div_le [OF e] assms(2) show ?thesis
      using True i1 by (simp add: lowPrime_def highPrime_def)
  qed
qed

lemma in_range_iff:
  assumes "0 < m" "p1 \<le> p2"
  shows "(p1 \<le> r \<and> r \<le> p2) \<longleftrightarrow>
     (p1 div m \<le> r div m \<and> r div m \<le> p2 div m \<and>
      lowPrime (r div m) p1 m \<le> r mod m \<and> r mod m \<le> highPrime (r div m) p2 m)"
proof -
  have mr: "r mod m < m" using assms(1) by simp
  have lo: "p1 \<le> r \<longleftrightarrow> p1 div m \<le> r div m \<and> lowPrime (r div m) p1 m \<le> r mod m"
  proof (cases "r div m = p1 div m")
    case True
    from same_div_le [OF True [symmetric]] True show ?thesis by (simp add: lowPrime_def)
  next
    case False
    show ?thesis
    proof (cases "p1 div m < r div m")
      case True
      from less_div_le [OF True assms(1)] True False show ?thesis by (simp add: lowPrime_def)
    next
      case nl: False
      with False have l: "r div m < p1 div m" by simp
      have "\<not> p1 \<le> r"
      proof
        assume "p1 \<le> r"
        then have "p1 div m \<le> r div m" by (rule div_le_mono)
        with l show False by simp
      qed
      with l show ?thesis by simp
    qed
  qed
  have hi: "r \<le> p2 \<longleftrightarrow> r div m \<le> p2 div m \<and> r mod m \<le> highPrime (r div m) p2 m"
  proof (cases "r div m = p2 div m")
    case True
    from same_div_le [OF True] True show ?thesis by (simp add: highPrime_def)
  next
    case False
    show ?thesis
    proof (cases "r div m < p2 div m")
      case True
      from less_div_le [OF True assms(1)] True False mr show ?thesis by (simp add: highPrime_def)
    next
      case nl: False
      with False have l: "p2 div m < r div m" by simp
      have "\<not> r \<le> p2"
      proof
        assume "r \<le> p2"
        then have "r div m \<le> p2 div m" by (rule div_le_mono)
        with l show False by simp
      qed
      with l show ?thesis by simp
    qed
  qed
  from lo hi show ?thesis by blast
qed

lemma mem_upt_Suc: "x \<in> set [a..<Suc b] \<longleftrightarrow> a \<le> x \<and> x \<le> b"
  by auto

lemma in_concat_map: "y \<in> set ys \<Longrightarrow> x \<in> set (g y) \<Longrightarrow> x \<in> set (concat (map g ys))"
  by auto

lemma set_group:
  assumes "0 < m" "0 < mc" "p1 \<le> p2" "q1 \<le> q2"
    and F: "\<And>i j. p1 div m \<le> i \<Longrightarrow> i \<le> p2 div m \<Longrightarrow> q1 div mc \<le> j \<Longrightarrow> j \<le> q2 div mc \<Longrightarrow>
        set (f i j) =
          {(dp + m * i + r', dq + mc * j + c') | r' c'.
             lowPrime i p1 m \<le> r' \<and> r' \<le> highPrime i p2 m \<and>
             lowPrime j q1 mc \<le> c' \<and> c' \<le> highPrime j q2 mc \<and> P i j r' c'}"
  shows "set (concat (map (\<lambda>i. concat (map (f i) [q1 div mc..<Suc (q2 div mc)]))
                 [p1 div m..<Suc (p2 div m)])) =
         {(dp + r, dq + c) | r c. p1 \<le> r \<and> r \<le> p2 \<and> q1 \<le> c \<and> c \<le> q2 \<and>
            P (r div m) (c div mc) (r mod m) (c mod mc)}"
    (is "?A = ?B")
proof (intro set_eqI iffI)
  fix x assume "x \<in> ?A"
  then obtain i j where i: "p1 div m \<le> i" "i \<le> p2 div m" and j: "q1 div mc \<le> j" "j \<le> q2 div mc"
    and x: "x \<in> set (f i j)"
    by auto
  from x F [OF i j] obtain r' c' where
    x': "x = (dp + m * i + r', dq + mc * j + c')"
    and b: "lowPrime i p1 m \<le> r'" "r' \<le> highPrime i p2 m"
      "lowPrime j q1 mc \<le> c'" "c' \<le> highPrime j q2 mc" "P i j r' c'"
    by auto
  from b(2) highPrime_less [OF assms(1), of i p2] have r'm: "r' < m" by simp
  from b(4) highPrime_less [OF assms(2), of j q2] have c'm: "c' < mc" by simp
  let ?r = "m * i + r'" and ?c = "mc * j + c'"
  from r'm assms(1) have rd: "?r div m = i" "?r mod m = r'" by simp_all
  from c'm assms(2) have cd: "?c div mc = j" "?c mod mc = c'" by simp_all
  from in_range_iff [OF assms(1,3), of ?r] i b(1,2) rd have "p1 \<le> ?r \<and> ?r \<le> p2" by simp
  moreover from in_range_iff [OF assms(2,4), of ?c] j b(3,4) cd have "q1 \<le> ?c \<and> ?c \<le> q2" by simp
  moreover from b(5) rd cd have "P (?r div m) (?c div mc) (?r mod m) (?c mod mc)" by simp
  ultimately show "x \<in> ?B"
    unfolding x' by (intro CollectI exI [of _ ?r] exI [of _ ?c]) (simp add: add.assoc)
next
  fix x assume "x \<in> ?B"
  then obtain r c where x: "x = (dp + r, dq + c)"
    and b: "p1 \<le> r" "r \<le> p2" "q1 \<le> c" "c \<le> q2" "P (r div m) (c div mc) (r mod m) (c mod mc)"
    by auto
  from in_range_iff [OF assms(1,3), of r] b(1,2)
  have ir: "p1 div m \<le> r div m" "r div m \<le> p2 div m"
    "lowPrime (r div m) p1 m \<le> r mod m" "r mod m \<le> highPrime (r div m) p2 m" by simp_all
  from in_range_iff [OF assms(2,4), of c] b(3,4)
  have ic: "q1 div mc \<le> c div mc" "c div mc \<le> q2 div mc"
    "lowPrime (c div mc) q1 mc \<le> c mod mc" "c mod mc \<le> highPrime (c div mc) q2 mc" by simp_all
  have "x = (dp + m * (r div m) + r mod m, dq + mc * (c div mc) + c mod mc)"
    unfolding x by (simp add: add.assoc)
  with ir(3,4) ic(3,4) b(5) have xin: "x \<in> set (f (r div m) (c div mc))"
    unfolding F [OF ir(1,2) ic(1,2)] by blast
  have rm: "r div m \<in> set [p1 div m..<Suc (p2 div m)]"
    and cm: "c div mc \<in> set [q1 div mc..<Suc (q2 div mc)]"
    unfolding mem_upt_Suc using ir(1,2) ic(1,2) by blast+
  from cm xin have "x \<in> set (concat (map (f (r div m)) [q1 div mc..<Suc (q2 div mc)]))"
    by (rule in_concat_map)
  with rm show "x \<in> ?A"
    by (rule in_concat_map)
qed

lemma cellv_Suc_gen:
  "cellv s (Suc d) r c z =
     (if T_of s ! z then
        cellv s d (r mod kr_of s ^ d) (c mod kc_of s ^ d)
          (rank (T_of s) (z + 1) * kr_of s * kc_of s + kc_of s * (r div kr_of s ^ d)
             + c div kc_of s ^ d)
      else null_of s)"
  by (simp add: cellv_def mult.commute)

lemma set_rangeList:
  "0 < kr_of s \<Longrightarrow> 0 < kc_of s \<Longrightarrow> p1 \<le> p2 \<Longrightarrow> p2 < kr_of s ^ d \<Longrightarrow>
   q1 \<le> q2 \<Longrightarrow> q2 < kc_of s ^ d \<Longrightarrow>
   set (rangeList s d p1 p2 q1 q2 dp dq z) =
     {(dp + r, dq + c) | r c. p1 \<le> r \<and> r \<le> p2 \<and> q1 \<le> c \<and> c \<le> q2 \<and>
        cellv s d r c z \<noteq> null_of s}"
proof (induction d arbitrary: p1 p2 q1 q2 dp dq z)
  case 0
  then have "p1 = 0" "p2 = 0" "q1 = 0" "q2 = 0" by simp_all
  then show ?case by (auto simp: cellv_def)
next
  case (Suc d)
  let ?m = "kr_of s ^ d" and ?mc = "kc_of s ^ d"
  from Suc.prems have m: "0 < ?m" "0 < ?mc" by simp_all
  show ?case
  proof (cases "T_of s ! z")
    case False
    then show ?thesis by (simp add: cellv_Suc_gen)
  next
    case True
    have F: "set (rangeList s d (lowPrime i p1 ?m) (highPrime i p2 ?m)
                (lowPrime j q1 ?mc) (highPrime j q2 ?mc) (dp + ?m * i) (dq + ?mc * j)
                (rank (T_of s) (z + 1) * kr_of s * kc_of s + kc_of s * i + j)) =
          {(dp + ?m * i + r', dq + ?mc * j + c') | r' c'.
             lowPrime i p1 ?m \<le> r' \<and> r' \<le> highPrime i p2 ?m \<and>
             lowPrime j q1 ?mc \<le> c' \<and> c' \<le> highPrime j q2 ?mc \<and>
             cellv s d r' c' (rank (T_of s) (z + 1) * kr_of s * kc_of s + kc_of s * i + j)
               \<noteq> null_of s}"
      if "p1 div ?m \<le> i" "i \<le> p2 div ?m" "q1 div ?mc \<le> j" "j \<le> q2 div ?mc" for i j
      by (rule Suc.IH [OF Suc.prems(1,2)
            lowPrime_le_highPrime [OF m(1) Suc.prems(3) that(1,2)] highPrime_less [OF m(1)]
            lowPrime_le_highPrime [OF m(2) Suc.prems(5) that(3,4)] highPrime_less [OF m(2)]])
    have "set (rangeList s (Suc d) p1 p2 q1 q2 dp dq z) =
        set (concat (map (\<lambda>i. concat (map (\<lambda>j. rangeList s d
            (lowPrime i p1 ?m) (highPrime i p2 ?m) (lowPrime j q1 ?mc) (highPrime j q2 ?mc)
            (dp + ?m * i) (dq + ?mc * j)
            (rank (T_of s) (z + 1) * kr_of s * kc_of s + kc_of s * i + j))
          [q1 div ?mc..<Suc (q2 div ?mc)])) [p1 div ?m..<Suc (p2 div ?m)]))"
      using True by simp
    also have "\<dots> = {(dp + r, dq + c) | r c. p1 \<le> r \<and> r \<le> p2 \<and> q1 \<le> c \<and> c \<le> q2 \<and>
        cellv s d (r mod ?m) (c mod ?mc)
          (rank (T_of s) (z + 1) * kr_of s * kc_of s + kc_of s * (r div ?m) + c div ?mc)
          \<noteq> null_of s}"
      by (rule set_group [OF m Suc.prems(3,5) F])
    also have "\<dots> = {(dp + r, dq + c) | r c. p1 \<le> r \<and> r \<le> p2 \<and> q1 \<le> c \<and> c \<le> q2 \<and>
        cellv s (Suc d) r c z \<noteq> null_of s}"
      using True by (simp add: cellv_Suc_gen)
    finally show ?thesis .
  qed
qed

lemma for_loop_collect2:
  assumes "\<And>x y acc. x \<in> set xs \<Longrightarrow> y \<in> set ys \<Longrightarrow> body x y acc = Some (acc @ f x y)"
  shows "for_loop xs (\<lambda>x. for_loop ys (body x)) acc =
           Some (acc @ concat (map (\<lambda>x. concat (map (f x) ys)) xs))"
proof (rule for_loop_collect, intro ballI allI)
  fix x acc' assume "x \<in> set xs"
  with assms have "\<forall>y \<in> set ys. \<forall>acc. body x y acc = Some (acc @ f x y)" by simp
  then show "for_loop ys (body x) acc' = Some (acc' @ concat (map (f x) ys))"
    by (rule for_loop_collect)
qed

lemma rangePos_eq:
  "lvl s a n d \<Longrightarrow> i < n \<Longrightarrow> 0 < kr_of s \<Longrightarrow> 0 < kc_of s \<Longrightarrow> p2 < kr_of s ^ d \<Longrightarrow>
   q2 < kc_of s ^ d \<Longrightarrow>
   rangePos s pairs (kr_of s ^ d) (kc_of s ^ d) p1 p2 q1 q2 dp dq (a + i) =
     Some (pairs @ rangeList s d p1 p2 q1 q2 dp dq (a + i))"
proof (induction d arbitrary: a n i p1 p2 q1 q2 dp dq pairs)
  case 0
  then show ?case
    using lvl_leaf [of s a n]
    by (subst rangePos.simps) (simp add: nth_opt_def)
next
  case (Suc d)
  let ?m = "kr_of s ^ d" and ?mc = "kc_of s ^ d"
  from Suc.prems have m: "0 < ?m" "0 < ?mc" by simp_all
  have inT: "a + i < length (T_of s)" using Suc.prems by (intro lvl_inT)
  show ?case
  proof (cases "T_of s ! (a + i)")
    case False
    with inT show ?thesis
      by (subst rangePos.simps) simp
  next
    case t: True
    have r: "rank (T_of s) (a + i + 1) * kr_of s * kc_of s = a + n + cidx s a i"
      by (rule lvl_rank [OF Suc.prems(1,2) t])
    from Suc.prems(3,5) have pd: "p2 div ?m < kr_of s"
      by (intro less_mult_imp_div_less) (simp add: mult.commute)
    from Suc.prems(4,6) have qd: "q2 div ?mc < kc_of s"
      by (intro less_mult_imp_div_less) (simp add: mult.commute)
    have body: "rangePos s acc ?m ?mc
          (lowPrime x p1 ?m) (highPrime x p2 ?m) (lowPrime y q1 ?mc) (highPrime y q2 ?mc)
          (dp + ?m * x) (dq + ?mc * y)
          (rank (T_of s) (a + i + 1) * kr_of s * kc_of s + kc_of s * x + y) =
        Some (acc @ rangeList s d
          (lowPrime x p1 ?m) (highPrime x p2 ?m) (lowPrime y q1 ?mc) (highPrime y q2 ?mc)
          (dp + ?m * x) (dq + ?mc * y)
          (rank (T_of s) (a + i + 1) * kr_of s * kc_of s + kc_of s * x + y))"
      if "x \<in> set [p1 div ?m..<Suc (p2 div ?m)]" "y \<in> set [q1 div ?mc..<Suc (q2 div ?mc)]"
      for x y acc
    proof -
      from that pd qd have x: "x < kr_of s" and y: "y < kc_of s"
        unfolding mem_upt_Suc by simp_all
      from slot_less [OF x y] have sl: "kc_of s * x + y < kr_of s * kc_of s"
        by (simp add: mult.commute)
      from cidx_bound [OF Suc.prems(1,2) t sl]
      have b: "cidx s a i + (kc_of s * x + y) < next_n s a n" .
      from Suc.IH [OF lvl_next [OF Suc.prems(1)] b Suc.prems(3,4)
          highPrime_less [OF m(1)] highPrime_less [OF m(2)]]
      show ?thesis
        unfolding r by (simp add: add.assoc)
    qed
    have "rangePos s pairs (kr_of s ^ Suc d) (kc_of s ^ Suc d) p1 p2 q1 q2 dp dq (a + i) =
        for_loop [p1 div ?m..<Suc (p2 div ?m)]
          (\<lambda>x. for_loop [q1 div ?mc..<Suc (q2 div ?mc)]
             (\<lambda>y pairs'. rangePos s pairs' ?m ?mc
                (lowPrime x p1 ?m) (highPrime x p2 ?m) (lowPrime y q1 ?mc) (highPrime y q2 ?mc)
                (dp + ?m * x) (dq + ?mc * y)
                (rank (T_of s) (a + i + 1) * kr_of s * kc_of s + kc_of s * x + y)))
          pairs"
      using inT t Suc.prems(3,4) by (subst rangePos.simps) (simp del: upt_Suc)
    also have "\<dots> = Some (pairs @ concat (map (\<lambda>x. concat (map (\<lambda>y. rangeList s d
          (lowPrime x p1 ?m) (highPrime x p2 ?m) (lowPrime y q1 ?mc) (highPrime y q2 ?mc)
          (dp + ?m * x) (dq + ?mc * y)
          (rank (T_of s) (a + i + 1) * kr_of s * kc_of s + kc_of s * x + y))
          [q1 div ?mc..<Suc (q2 div ?mc)])) [p1 div ?m..<Suc (p2 div ?m)]))"
      by (rule for_loop_collect2) (rule body)
    finally show ?thesis
      using t by (simp del: upt_Suc)
  qed
qed

lemma getPositionsInRange_rangeTop:
  assumes "valid s" "L_of s \<noteq> []" "p2 < numRows_of s" "q2 < numCols_of s"
  shows "getPositionsInRange s p1 p2 q1 q2 = Some (rangeTop s p1 p2 q1 q2)"
proof -
  note D = valid_dims [OF assms(1)]
  let ?d = "h_of s - 1"
  let ?m = "kr_of s ^ ?d" and ?mc = "kc_of s ^ ?d"
  from D(3,4) have m: "0 < ?m" "0 < ?mc" by simp_all
  note V = lvl_root [OF assms(1,2)]
  from assms(3) have "p2 < kr_of s ^ Suc ?d" unfolding D(5) [symmetric] .
  then have pd: "p2 div ?m < kr_of s"
    by (intro less_mult_imp_div_less) (simp add: mult.commute)
  from assms(4) have "q2 < kc_of s ^ Suc ?d" unfolding D(6) [symmetric] .
  then have qd: "q2 div ?mc < kc_of s"
    by (intro less_mult_imp_div_less) (simp add: mult.commute)
  have body: "rangePos s acc ?m ?mc
        (lowPrime x p1 ?m) (highPrime x p2 ?m) (lowPrime y q1 ?mc) (highPrime y q2 ?mc)
        (?m * x) (?mc * y) (kc_of s * x + y) =
      Some (acc @ rangeList s ?d
        (lowPrime x p1 ?m) (highPrime x p2 ?m) (lowPrime y q1 ?mc) (highPrime y q2 ?mc)
        (0 + ?m * x) (0 + ?mc * y) (kc_of s * x + y))"
    if "x \<in> set [p1 div ?m..<Suc (p2 div ?m)]" "y \<in> set [q1 div ?mc..<Suc (q2 div ?mc)]"
    for x y acc
  proof -
    from that pd qd have x: "x < kr_of s" and y: "y < kc_of s"
      unfolding mem_upt_Suc by simp_all
    from slot_less [OF x y] have sl: "kc_of s * x + y < kr_of s * kc_of s"
      by (simp add: mult.commute)
    from rangePos_eq [OF V sl D(3,4) highPrime_less [OF m(1)] highPrime_less [OF m(2)]]
    show ?thesis by simp
  qed
  have "getPositionsInRange s p1 p2 q1 q2 =
      for_loop [p1 div ?m..<Suc (p2 div ?m)]
        (\<lambda>x. for_loop [q1 div ?mc..<Suc (q2 div ?mc)]
           (\<lambda>y pairs'. rangePos s pairs' ?m ?mc
              (lowPrime x p1 ?m) (highPrime x p2 ?m) (lowPrime y q1 ?mc) (highPrime y q2 ?mc)
              (?m * x) (?mc * y) (kc_of s * x + y)))
        []"
    using assms(2) by (simp add: getPositionsInRange_def rangePosInit_def D(1,2) del: upt_Suc)
  also have "\<dots> = Some ([] @ rangeTop s p1 p2 q1 q2)"
    unfolding rangeTop_def by (rule for_loop_collect2) (rule body)
  finally show ?thesis by simp
qed

lemma set_rangeTop:
  assumes "valid s" "L_of s \<noteq> []" "p1 \<le> p2" "p2 < numRows_of s" "q1 \<le> q2" "q2 < numCols_of s"
  shows "set (rangeTop s p1 p2 q1 q2) =
     {(r, c). p1 \<le> r \<and> r \<le> p2 \<and> q1 \<le> c \<and> c \<le> q2 \<and> cell s r c \<noteq> null_of s}"
proof -
  note D = valid_dims [OF assms(1)]
  let ?d = "h_of s - 1"
  let ?m = "kr_of s ^ ?d" and ?mc = "kc_of s ^ ?d"
  from D(3,4) have m: "0 < ?m" "0 < ?mc" by simp_all
  have F: "set (rangeList s ?d (lowPrime i p1 ?m) (highPrime i p2 ?m)
              (lowPrime j q1 ?mc) (highPrime j q2 ?mc) (0 + ?m * i) (0 + ?mc * j)
              (kc_of s * i + j)) =
        {(0 + ?m * i + r', 0 + ?mc * j + c') | r' c'.
           lowPrime i p1 ?m \<le> r' \<and> r' \<le> highPrime i p2 ?m \<and>
           lowPrime j q1 ?mc \<le> c' \<and> c' \<le> highPrime j q2 ?mc \<and>
           cellv s ?d r' c' (kc_of s * i + j) \<noteq> null_of s}"
    if "p1 div ?m \<le> i" "i \<le> p2 div ?m" "q1 div ?mc \<le> j" "j \<le> q2 div ?mc" for i j
    by (rule set_rangeList [OF D(3,4)
          lowPrime_le_highPrime [OF m(1) assms(3) that(1,2)] highPrime_less [OF m(1)]
          lowPrime_le_highPrime [OF m(2) assms(5) that(3,4)] highPrime_less [OF m(2)]])
  have "set (rangeTop s p1 p2 q1 q2) =
      {(0 + r, 0 + c) | r c. p1 \<le> r \<and> r \<le> p2 \<and> q1 \<le> c \<and> c \<le> q2 \<and>
        cellv s ?d (r mod ?m) (c mod ?mc) (kc_of s * (r div ?m) + c div ?mc) \<noteq> null_of s}"
    unfolding rangeTop_def by (rule set_group [OF m assms(3,5) F])
  also have "\<dots> = {(r, c). p1 \<le> r \<and> r \<le> p2 \<and> q1 \<le> c \<and> c \<le> q2 \<and> cell s r c \<noteq> null_of s}"
    using assms(2) by (auto simp: cell_def tpos_def cellv_def mult.commute)
  finally show ?thesis .
qed

subsection \<open>getPositionsInRange\<close>

text \<open>
  C4: on an object that satisfies the invariant and for every rectangle with
  \<open>i1 \<le> i2 < numRows\<close> and \<open>j1 \<le> j2 < numCols\<close>, \<open>getPositionsInRange(i1, i2, j1, j2)\<close>
  returns, and the set of the returned positions is the set of the cells \<open>(i, j)\<close> of the
  rectangle for which \<open>getElement(i, j)\<close> is not the null element.
\<close>

theorem getPositionsInRange_correct:
  assumes "valid s" "i1 \<le> i2" "i2 < numRows_of s" "j1 \<le> j2" "j2 < numCols_of s"
  shows "\<exists>ps. getPositionsInRange s i1 i2 j1 j2 = Some ps \<and>
           set ps = {(i, j). i1 \<le> i \<and> i \<le> i2 \<and> j1 \<le> j \<and> j \<le> j2 \<and>
                       getElement s i j \<noteq> Some (null_of s)}"
proof (cases "L_of s = []")
  case True
  then have "getPositionsInRange s i1 i2 j1 j2 = Some []"
    by (simp add: getPositionsInRange_def rangePosInit_def)
  moreover have "getElement s i j = Some (null_of s)" for i j
    using True by (simp add: getElement_def getInit_def)
  ultimately show ?thesis by simp
next
  case False
  have "cell s i j \<noteq> null_of s \<longleftrightarrow> getElement s i j \<noteq> Some (null_of s)"
    if "i \<le> i2" "j \<le> j2" for i j
    using getElement_cell [OF assms(1), of i j] that assms(3,5) by simp
  then have "{(i, j). i1 \<le> i \<and> i \<le> i2 \<and> j1 \<le> j \<and> j \<le> j2 \<and> cell s i j \<noteq> null_of s} =
      {(i, j). i1 \<le> i \<and> i \<le> i2 \<and> j1 \<le> j \<and> j \<le> j2 \<and> getElement s i j \<noteq> Some (null_of s)}"
    by blast
  with getPositionsInRange_rangeTop [OF assms(1) False assms(3,5), of i1 j1]
    set_rangeTop [OF assms(1) False assms(2,3,4,5)]
  show ?thesis by simp
qed

theorem getPositionsInRange_correct_witness:
  "valid scenarioA \<and> (1::nat) \<le> 3 \<and> 3 < numRows_of scenarioA \<and> (1::nat) \<le> 3 \<and>
   3 < numCols_of scenarioA \<and>
   getPositionsInRange scenarioA 1 3 1 3 = Some [(1, 3), (3, 2)] \<and>
   set [(1, 3), (3, 2)] =
     {(i, j). 1 \<le> i \<and> i \<le> 3 \<and> 1 \<le> j \<and> j \<le> 3 \<and>
        getElement scenarioA i j \<noteq> Some (null_of scenarioA)}"
proof -
  have r: "(1::nat) \<le> 3" "3 < numRows_of scenarioA" "3 < numCols_of scenarioA"
    by (simp_all add: scenarioA_def)
  have e: "getPositionsInRange scenarioA 1 3 1 3 = Some [(1, 3), (3, 2)]"
    by code_simp
  from getPositionsInRange_correct [OF scenarioA_valid r(1,2) r(1) r(3)] e scenarioA_valid r
  show ?thesis by auto
qed

lemma group_ex:
  assumes "list_all (\<lambda>g. list_ex P (take k (drop (g * k) xs))) [0..<length xs div k]"
    "0 < k" "k * g + k \<le> length xs"
  shows "\<exists>sl<k. P (xs ! (k * g + sl))"
proof -
  from assms(3) have "k * Suc g \<le> length xs" by simp
  then have "Suc g \<le> length xs div k"
    using assms(2) by (metis div_le_mono nonzero_mult_div_cancel_left less_not_refl)
  then have "g \<in> set [0..<length xs div k]" by simp
  with assms(1) have "list_ex P (take k (drop (g * k) xs))"
    unfolding list_all_iff by blast
  then obtain v where v: "v \<in> set (take k (drop (g * k) xs))" "P v"
    unfolding list_ex_iff by blast
  from v(1) obtain sl where sl: "sl < length (take k (drop (g * k) xs))"
    "take k (drop (g * k) xs) ! sl = v"
    unfolding in_set_conv_nth by blast
  from sl(1) have "sl < k" by simp
  moreover from sl assms(3) have "xs ! (k * g + sl) = v"
    by (simp add: mult.commute)
  ultimately show ?thesis using v(2) by blast
qed

lemma prunedT:
  "pruned s \<Longrightarrow> 0 < kr_of s * kc_of s \<Longrightarrow> kr_of s * kc_of s * g + kr_of s * kc_of s \<le> length (T_of s) \<Longrightarrow>
   \<exists>sl<kr_of s * kc_of s. T_of s ! (kr_of s * kc_of s * g + sl)"
  unfolding pruned_def by (elim conjE) (rule group_ex [where P = "\<lambda>b. b"])

lemma prunedL:
  "pruned s \<Longrightarrow> 0 < kr_of s * kc_of s \<Longrightarrow> kr_of s * kc_of s * g + kr_of s * kc_of s \<le> length (L_of s) \<Longrightarrow>
   \<exists>sl<kr_of s * kc_of s. L_of s ! (kr_of s * kc_of s * g + sl) \<noteq> null_of s"
  unfolding pruned_def by (elim conjE) (rule group_ex [where P = "\<lambda>v. v \<noteq> null_of s"])

lemma alive_child:
  assumes "lvl s a n (Suc d)" "i < n" "T_of s ! (a + i)" "pruned s" "0 < kr_of s" "0 < kc_of s"
  shows "\<exists>sl<kr_of s * kc_of s. alive s d (a + n + (cidx s a i + sl))"
proof -
  let ?k = "kr_of s * kc_of s"
  from assms(5,6) have k: "0 < ?k" by simp
  have "?k - 1 < ?k" using k by simp
  from cidx_bound [OF assms(1,2,3) this] k
  have b: "cidx s a i + ?k \<le> next_n s a n" by simp
  note N = lvl_next [OF assms(1)]
  show ?thesis
  proof (cases d)
    case 0
    with N lvl_leaf [of s "a + n" "next_n s a n"]
    have an: "a + n = length (T_of s)" and nn: "next_n s a n = length (L_of s)" by simp_all
    from b nn have "?k * ones (take i (drop a (T_of s))) + ?k \<le> length (L_of s)"
      by (simp add: cidx_def)
    from prunedL [OF assms(4) k this] show ?thesis
      by (simp add: alive_def 0 an cidx_def)
  next
    case (Suc d')
    from N Suc lvl_SucD(1) [of s "a + n" "next_n s a n" d']
    have "a + n + next_n s a n \<le> length (T_of s)" by simp
    with b have le: "a + n + cidx s a i + ?k \<le> length (T_of s)" by simp
    define g where "g = 1 + ones (take a (T_of s)) + ones (take i (drop a (T_of s)))"
    have e: "a + n + cidx s a i = ?k * g"
      using lvl_SucD(2) [OF assms(1)] by (simp add: cidx_def g_def algebra_simps)
    from le have "?k * g + ?k \<le> length (T_of s)" unfolding e .
    from prunedT [OF assms(4) k this] obtain sl where
      sl: "sl < ?k" "T_of s ! (?k * g + sl)" by blast
    have "?k * g + sl = a + n + (cidx s a i + sl)" unfolding e [symmetric] by simp
    with sl(2) have "alive s d (a + n + (cidx s a i + sl))"
      by (simp add: alive_def Suc)
    with sl(1) show ?thesis by blast
  qed
qed

lemma alive_cell:
  "lvl s a n d \<Longrightarrow> i < n \<Longrightarrow> alive s d (a + i) \<Longrightarrow> pruned s \<Longrightarrow> 0 < kr_of s \<Longrightarrow> 0 < kc_of s \<Longrightarrow>
   \<exists>r c. r < kr_of s ^ d \<and> c < kc_of s ^ d \<and> cellv s d r c (a + i) \<noteq> null_of s"
proof (induction d arbitrary: a n i)
  case 0
  then show ?case by (simp add: alive_def cellv_def)
next
  case (Suc d)
  let ?m = "kr_of s ^ d" and ?mc = "kc_of s ^ d"
  from Suc.prems have m: "0 < ?m" "0 < ?mc" by simp_all
  from Suc.prems(3) have t: "T_of s ! (a + i)" by (simp add: alive_def)
  from alive_child [OF Suc.prems(1,2) t Suc.prems(4,5,6)] obtain sl where
    sl: "sl < kr_of s * kc_of s" "alive s d (a + n + (cidx s a i + sl))" by blast
  from cidx_bound [OF Suc.prems(1,2) t sl(1)] have b: "cidx s a i + sl < next_n s a n" .
  from Suc.IH [OF lvl_next [OF Suc.prems(1)] b sl(2) Suc.prems(4,5,6)] obtain r' c' where
    rc: "r' < ?m" "c' < ?mc" "cellv s d r' c' (a + n + (cidx s a i + sl)) \<noteq> null_of s" by blast
  let ?x = "sl div kc_of s" and ?y = "sl mod kc_of s"
  let ?r = "?x * ?m + r'" and ?c = "?y * ?mc + c'"
  from sl(1) have x: "?x < kr_of s"
    by (intro less_mult_imp_div_less) simp
  have y: "?y < kc_of s" using Suc.prems(6) by simp
  from rc(1) m(1) have rd: "?r div ?m = ?x" "?r mod ?m = r'" by simp_all
  from rc(2) m(2) have cd: "?c div ?mc = ?y" "?c mod ?mc = c'" by simp_all
  have "?r < kr_of s ^ Suc d"
  proof -
    from x have "Suc ?x \<le> kr_of s" by simp
    then have "Suc ?x * ?m \<le> kr_of s * ?m" by (rule mult_le_mono1)
    with rc(1) show ?thesis by simp
  qed
  moreover have "?c < kc_of s ^ Suc d"
  proof -
    from y have "Suc ?y \<le> kc_of s" by simp
    then have "Suc ?y * ?mc \<le> kc_of s * ?mc" by (rule mult_le_mono1)
    with rc(2) show ?thesis by simp
  qed
  moreover have "cellv s (Suc d) ?r ?c (a + i) \<noteq> null_of s"
  proof -
    have "kc_of s * ?x + ?y = sl" by simp
    then have eq: "rank (T_of s) (a + i + 1) * kr_of s * kc_of s + kc_of s * ?x + ?y =
        a + n + (cidx s a i + sl)"
      using lvl_rank [OF Suc.prems(1,2) t] by simp
    have "cellv s (Suc d) ?r ?c (a + i) =
        cellv s d r' c' (rank (T_of s) (a + i + 1) * kr_of s * kc_of s + kc_of s * ?x + ?y)"
      using t by (simp only: cellv_Suc_gen rd cd if_True)
    with rc(3) show ?thesis
      unfolding eq by simp
  qed
  ultimately show ?case by blast
qed

lemma found_loop:
  "\<forall>y \<in> set ys. g y = Some (E y) \<Longrightarrow>
   for_loop ys (\<lambda>y found. if found then Some True else g y) b =
     Some (b \<or> (\<exists>y \<in> set ys. E y))"
  by (induction ys arbitrary: b) auto

lemma for_loop_found:
  assumes "\<And>x y. x \<in> set xs \<Longrightarrow> y \<in> set ys \<Longrightarrow> body x y = Some (E x y)"
  shows "for_loop xs (\<lambda>x. for_loop ys (\<lambda>y found. if found then Some True else body x y)) b =
           Some (b \<or> (\<exists>x \<in> set xs. \<exists>y \<in> set ys. E x y))"
  using assms
proof (induction xs arbitrary: b)
  case Nil
  show ?case by simp
next
  case (Cons x xs)
  from Cons.prems have "\<forall>y \<in> set ys. body x y = Some (E x y)" by simp
  note inner = found_loop [OF this]
  have "for_loop xs (\<lambda>x. for_loop ys (\<lambda>y found. if found then Some True else body x y)) b' =
      Some (b' \<or> (\<exists>x \<in> set xs. \<exists>y \<in> set ys. E x y))" for b'
    by (rule Cons.IH) (simp add: Cons.prems)
  with inner show ?case by auto
qed

lemma NE_rangeList:
  assumes "0 < kr_of s" "0 < kc_of s" "p1 \<le> p2" "p2 < kr_of s ^ d" "q1 \<le> q2" "q2 < kc_of s ^ d"
  shows "NE s d p1 p2 q1 q2 z \<longleftrightarrow> set (rangeList s d p1 p2 q1 q2 dp dq z) \<noteq> {}"
  unfolding set_rangeList [OF assms] NE_def by blast

lemma NE_Suc:
  assumes "0 < kr_of s" "0 < kc_of s" "p1 \<le> p2" "p2 < kr_of s ^ Suc d" "q1 \<le> q2"
    "q2 < kc_of s ^ Suc d" "T_of s ! z"
  shows "NE s (Suc d) p1 p2 q1 q2 z \<longleftrightarrow>
     (\<exists>i \<in> set [p1 div kr_of s ^ d..<Suc (p2 div kr_of s ^ d)].
      \<exists>j \<in> set [q1 div kc_of s ^ d..<Suc (q2 div kc_of s ^ d)].
        NE s d (lowPrime i p1 (kr_of s ^ d)) (highPrime i p2 (kr_of s ^ d))
          (lowPrime j q1 (kc_of s ^ d)) (highPrime j q2 (kc_of s ^ d))
          (rank (T_of s) (z + 1) * kr_of s * kc_of s + kc_of s * i + j))"
proof -
  let ?m = "kr_of s ^ d" and ?mc = "kc_of s ^ d"
  from assms have m: "0 < ?m" "0 < ?mc" by simp_all
  have c: "NE s d (lowPrime i p1 ?m) (highPrime i p2 ?m) (lowPrime j q1 ?mc) (highPrime j q2 ?mc)
          (rank (T_of s) (z + 1) * kr_of s * kc_of s + kc_of s * i + j) \<longleftrightarrow>
        set (rangeList s d (lowPrime i p1 ?m) (highPrime i p2 ?m)
          (lowPrime j q1 ?mc) (highPrime j q2 ?mc) (0 + ?m * i) (0 + ?mc * j)
          (rank (T_of s) (z + 1) * kr_of s * kc_of s + kc_of s * i + j)) \<noteq> {}"
    if "i \<in> set [p1 div ?m..<Suc (p2 div ?m)]" "j \<in> set [q1 div ?mc..<Suc (q2 div ?mc)]" for i j
  proof -
    from that have "p1 div ?m \<le> i" "i \<le> p2 div ?m" "q1 div ?mc \<le> j" "j \<le> q2 div ?mc"
      unfolding mem_upt_Suc by simp_all
    then show ?thesis
      by (intro NE_rangeList [OF assms(1,2)] lowPrime_le_highPrime highPrime_less m assms(3,5))
  qed
  have "NE s (Suc d) p1 p2 q1 q2 z \<longleftrightarrow> set (rangeList s (Suc d) p1 p2 q1 q2 0 0 z) \<noteq> {}"
    by (rule NE_rangeList [OF assms(1-6)])
  also have "\<dots> \<longleftrightarrow> (\<exists>i \<in> set [p1 div ?m..<Suc (p2 div ?m)].
      \<exists>j \<in> set [q1 div ?mc..<Suc (q2 div ?mc)].
        set (rangeList s d (lowPrime i p1 ?m) (highPrime i p2 ?m)
          (lowPrime j q1 ?mc) (highPrime j q2 ?mc) (0 + ?m * i) (0 + ?mc * j)
          (rank (T_of s) (z + 1) * kr_of s * kc_of s + kc_of s * i + j)) \<noteq> {})"
    using assms(7) by (simp del: upt_Suc)
  also have "\<dots> \<longleftrightarrow> (\<exists>i \<in> set [p1 div ?m..<Suc (p2 div ?m)].
      \<exists>j \<in> set [q1 div ?mc..<Suc (q2 div ?mc)].
        NE s d (lowPrime i p1 ?m) (highPrime i p2 ?m) (lowPrime j q1 ?mc) (highPrime j q2 ?mc)
          (rank (T_of s) (z + 1) * kr_of s * kc_of s + kc_of s * i + j))"
    using c by blast
  finally show ?thesis .
qed

lemma elemInRange_eq:
  fixes s :: "('e::zero) KrKcTree"
  assumes "pruned s" "null_of s = 0" "0 < kr_of s" "0 < kc_of s"
  shows "lvl s a n d \<Longrightarrow> i < n \<Longrightarrow> p1 \<le> p2 \<Longrightarrow> p2 < kr_of s ^ d \<Longrightarrow> q1 \<le> q2 \<Longrightarrow>
   q2 < kc_of s ^ d \<Longrightarrow>
   elemInRange s (kr_of s ^ d) (kc_of s ^ d) p1 p2 q1 q2 (a + i) =
     Some (NE s d p1 p2 q1 q2 (a + i))"
proof (induction d arbitrary: a n i p1 p2 q1 q2)
  case 0
  then have "p1 = 0" "p2 = 0" "q1 = 0" "q2 = 0" by simp_all
  with 0 assms(2) show ?case
    using lvl_leaf [of s a n]
    by (subst elemInRange.simps) (simp add: nth_opt_def NE_def cellv_def)
next
  case (Suc d)
  let ?m = "kr_of s ^ d" and ?mc = "kc_of s ^ d"
  from assms(3,4) have m: "0 < ?m" "0 < ?mc" by simp_all
  have inT: "a + i < length (T_of s)" using Suc.prems by (intro lvl_inT)
  show ?case
  proof (cases "T_of s ! (a + i)")
    case False
    with inT show ?thesis
      by (subst elemInRange.simps) (simp add: NE_def cellv_Suc_gen)
  next
    case t: True
    show ?thesis
    proof (cases "p1 = 0 \<and> q1 = 0 \<and> p2 = kr_of s ^ Suc d - 1 \<and> q2 = kc_of s ^ Suc d - 1")
      case True
      from t have "alive s (Suc d) (a + i)" by (simp add: alive_def)
      from alive_cell [OF Suc.prems(1,2) this assms(1,3,4)] obtain r c where
        rc: "r < kr_of s ^ Suc d" "c < kc_of s ^ Suc d" "cellv s (Suc d) r c (a + i) \<noteq> null_of s"
        by blast
      from rc(1,2) True have "p1 \<le> r" "r \<le> p2" "q1 \<le> c" "c \<le> q2" by simp_all
      with rc(3) have "NE s (Suc d) p1 p2 q1 q2 (a + i)"
        unfolding NE_def by blast
      with inT t True show ?thesis
        by (subst elemInRange.simps) simp
    next
      case nf: False
      have r: "rank (T_of s) (a + i + 1) * kr_of s * kc_of s = a + n + cidx s a i"
        by (rule lvl_rank [OF Suc.prems(1,2) t])
      from assms(3) Suc.prems(4) have pd: "p2 div ?m < kr_of s"
        by (intro less_mult_imp_div_less) (simp add: mult.commute)
      from assms(4) Suc.prems(6) have qd: "q2 div ?mc < kc_of s"
        by (intro less_mult_imp_div_less) (simp add: mult.commute)
      have body: "elemInRange s ?m ?mc
            (lowPrime x p1 ?m) (highPrime x p2 ?m) (lowPrime y q1 ?mc) (highPrime y q2 ?mc)
            (rank (T_of s) (a + i + 1) * kr_of s * kc_of s + kc_of s * x + y) =
          Some (NE s d
            (lowPrime x p1 ?m) (highPrime x p2 ?m) (lowPrime y q1 ?mc) (highPrime y q2 ?mc)
            (rank (T_of s) (a + i + 1) * kr_of s * kc_of s + kc_of s * x + y))"
        if "x \<in> set [p1 div ?m..<Suc (p2 div ?m)]" "y \<in> set [q1 div ?mc..<Suc (q2 div ?mc)]"
        for x y
      proof -
        from that have xr: "p1 div ?m \<le> x" "x \<le> p2 div ?m" and yr: "q1 div ?mc \<le> y" "y \<le> q2 div ?mc"
          unfolding mem_upt_Suc by simp_all
        with pd qd have x: "x < kr_of s" and y: "y < kc_of s" by simp_all
        from slot_less [OF x y] have sl: "kc_of s * x + y < kr_of s * kc_of s"
          by (simp add: mult.commute)
        from cidx_bound [OF Suc.prems(1,2) t sl]
        have b: "cidx s a i + (kc_of s * x + y) < next_n s a n" .
        from Suc.IH [OF lvl_next [OF Suc.prems(1)] b
            lowPrime_le_highPrime [OF m(1) Suc.prems(3) xr] highPrime_less [OF m(1)]
            lowPrime_le_highPrime [OF m(2) Suc.prems(5) yr] highPrime_less [OF m(2)]]
        show ?thesis
          unfolding r by (simp add: add.assoc)
      qed
      have "elemInRange s (kr_of s ^ Suc d) (kc_of s ^ Suc d) p1 p2 q1 q2 (a + i) =
          for_loop [p1 div ?m..<Suc (p2 div ?m)]
            (\<lambda>x. for_loop [q1 div ?mc..<Suc (q2 div ?mc)]
               (\<lambda>y found. if found then Some True else
                  elemInRange s ?m ?mc
                    (lowPrime x p1 ?m) (highPrime x p2 ?m) (lowPrime y q1 ?mc) (highPrime y q2 ?mc)
                    (rank (T_of s) (a + i + 1) * kr_of s * kc_of s + kc_of s * x + y)))
            False"
      proof -
        from inT have ng: "\<not> a + i \<ge> length (T_of s)" by simp
        have dv: "kr_of s ^ Suc d div kr_of s = ?m" "kc_of s ^ Suc d div kc_of s = ?mc"
          using assms(3,4) by simp_all
        show ?thesis
          by (subst elemInRange.simps) (simp only: ng t nf if_True if_False dv)
      qed
      also have "\<dots> = Some (False \<or> (\<exists>x \<in> set [p1 div ?m..<Suc (p2 div ?m)].
          \<exists>y \<in> set [q1 div ?mc..<Suc (q2 div ?mc)].
            NE s d (lowPrime x p1 ?m) (highPrime x p2 ?m) (lowPrime y q1 ?mc) (highPrime y q2 ?mc)
              (rank (T_of s) (a + i + 1) * kr_of s * kc_of s + kc_of s * x + y)))"
        by (rule for_loop_found) (rule body)
      finally show ?thesis
        unfolding NE_Suc [OF assms(3,4) Suc.prems(3,4,5,6) t] by simp
    qed
  qed
qed

lemma div_mod_decomp:
  assumes "r' < (m::nat)"
  shows "(x * m + r') div m = x" "(x * m + r') mod m = r'"
proof -
  from assms have "m \<noteq> 0" by simp
  then show "(x * m + r') div m = x" using assms by simp
  from assms show "(x * m + r') mod m = r'" by simp
qed

lemma root_alive:
  assumes "valid s" "L_of s \<noteq> []" "pruned s"
  shows "\<exists>sl<kr_of s * kc_of s. alive s (h_of s - 1) (0 + sl)"
proof -
  let ?k = "kr_of s * kc_of s"
  note D = valid_dims [OF assms(1)]
  from D(3,4) have k: "0 < ?k" by simp
  from valid_T_cases [OF assms(1,2)] show ?thesis
  proof (elim disjE conjE exE)
    assume T: "T_of s = []" and h: "h_of s = 1" and len: "length (L_of s) = ?k"
    from len have "?k * 0 + ?k \<le> length (L_of s)" by simp
    from prunedL [OF assms(3) k this] T h show ?thesis
      by (simp add: alive_def)
  next
    fix d assume hd: "h_of s - 1 = Suc d"
    from lvl_root [OF assms(1,2)] hd have "lvl s 0 ?k (Suc d)" by simp
    from lvl_SucD(1) [OF this] have "?k * 0 + ?k \<le> length (T_of s)" by simp
    from prunedT [OF assms(3) k this] hd show ?thesis
      by (simp add: alive_def)
  qed
qed

lemma root_cell:
  assumes "valid s" "L_of s \<noteq> []" "pruned s"
  shows "\<exists>r c. r < numRows_of s \<and> c < numCols_of s \<and> cell s r c \<noteq> null_of s"
proof -
  note D = valid_dims [OF assms(1)]
  let ?d = "h_of s - 1"
  let ?m = "kr_of s ^ ?d" and ?mc = "kc_of s ^ ?d"
  from D(3,4) have m: "0 < ?m" "0 < ?mc" by simp_all
  from root_alive [OF assms] obtain sl where
    sl: "sl < kr_of s * kc_of s" "alive s ?d (0 + sl)" by blast
  from alive_cell [OF lvl_root [OF assms(1,2)] sl assms(3) D(3,4)] obtain r' c' where
    rc: "r' < ?m" "c' < ?mc" "cellv s ?d r' c' (0 + sl) \<noteq> null_of s" by blast
  let ?x = "sl div kc_of s" and ?y = "sl mod kc_of s"
  let ?r = "?x * ?m + r'" and ?c = "?y * ?mc + c'"
  from sl(1) have x: "?x < kr_of s"
    by (intro less_mult_imp_div_less) simp
  have y: "?y < kc_of s" using D(4) by simp
  note rd = div_mod_decomp [OF rc(1), of ?x]
  note cd = div_mod_decomp [OF rc(2), of ?y]
  have "?r < numRows_of s"
  proof -
    from x have "Suc ?x \<le> kr_of s" by simp
    then have "Suc ?x * ?m \<le> kr_of s * ?m" by (rule mult_le_mono1)
    with rc(1) show ?thesis unfolding D(5) by simp
  qed
  moreover have "?c < numCols_of s"
  proof -
    from y have "Suc ?y \<le> kc_of s" by simp
    then have "Suc ?y * ?mc \<le> kc_of s * ?mc" by (rule mult_le_mono1)
    with rc(2) show ?thesis unfolding D(6) by simp
  qed
  moreover have "cell s ?r ?c \<noteq> null_of s"
  proof -
    have "?x * kc_of s + ?y = sl" by simp
    with rc(3) assms(2) show ?thesis
      unfolding cell_def tpos_def rd cd by (simp add: cellv_def)
  qed
  ultimately show ?thesis by blast
qed

lemma containsElement_eq:
  fixes s :: "('e::zero) KrKcTree"
  assumes "valid s" "pruned s" "null_of s = 0"
    "p1 \<le> p2" "p2 < numRows_of s" "q1 \<le> q2" "q2 < numCols_of s"
  shows "containsElement s p1 p2 q1 q2 =
     Some (\<exists>r c. p1 \<le> r \<and> r \<le> p2 \<and> q1 \<le> c \<and> c \<le> q2 \<and> cell s r c \<noteq> null_of s)"
proof (cases "L_of s = []")
  case True
  then show ?thesis
    by (simp add: containsElement_def elemInRangeInit_def cell_def)
next
  case L: False
  note D = valid_dims [OF assms(1)]
  let ?d = "h_of s - 1"
  let ?m = "kr_of s ^ ?d" and ?mc = "kc_of s ^ ?d"
  from D(3,4) have m: "0 < ?m" "0 < ?mc" by simp_all
  show ?thesis
  proof (cases "p1 = 0 \<and> q1 = 0 \<and> p2 = numRows_of s - 1 \<and> q2 = numCols_of s - 1")
    case True
    from root_cell [OF assms(1) L assms(2)] obtain r c where
      rc: "r < numRows_of s" "c < numCols_of s" "cell s r c \<noteq> null_of s" by blast
    from rc(1,2) True have "p1 \<le> r" "r \<le> p2" "q1 \<le> c" "c \<le> q2" by simp_all
    with rc(3) have "\<exists>r c. p1 \<le> r \<and> r \<le> p2 \<and> q1 \<le> c \<and> c \<le> q2 \<and> cell s r c \<noteq> null_of s"
      by blast
    with L True show ?thesis
      by (simp add: containsElement_def elemInRangeInit_def)
  next
    case nf: False
    note V = lvl_root [OF assms(1) L]
    from assms(5) have "p2 < kr_of s ^ Suc ?d" unfolding D(5) [symmetric] .
    then have pd: "p2 div ?m < kr_of s"
      by (intro less_mult_imp_div_less) (simp add: mult.commute)
    from assms(7) have "q2 < kc_of s ^ Suc ?d" unfolding D(6) [symmetric] .
    then have qd: "q2 div ?mc < kc_of s"
      by (intro less_mult_imp_div_less) (simp add: mult.commute)
    have rng: "p1 div ?m \<le> x \<and> x \<le> p2 div ?m \<and> q1 div ?mc \<le> y \<and> y \<le> q2 div ?mc"
      if "x \<in> set [p1 div ?m..<Suc (p2 div ?m)]" "y \<in> set [q1 div ?mc..<Suc (q2 div ?mc)]"
      for x y
      using that unfolding mem_upt_Suc by simp
    have body: "elemInRange s ?m ?mc
          (lowPrime x p1 ?m) (highPrime x p2 ?m) (lowPrime y q1 ?mc) (highPrime y q2 ?mc)
          (kc_of s * x + y) =
        Some (NE s ?d
          (lowPrime x p1 ?m) (highPrime x p2 ?m) (lowPrime y q1 ?mc) (highPrime y q2 ?mc)
          (kc_of s * x + y))"
      if "x \<in> set [p1 div ?m..<Suc (p2 div ?m)]" "y \<in> set [q1 div ?mc..<Suc (q2 div ?mc)]"
      for x y
    proof -
      from rng [OF that] have xr: "p1 div ?m \<le> x" "x \<le> p2 div ?m"
        and yr: "q1 div ?mc \<le> y" "y \<le> q2 div ?mc" by simp_all
      with pd qd have x: "x < kr_of s" and y: "y < kc_of s" by simp_all
      from slot_less [OF x y] have sl: "kc_of s * x + y < kr_of s * kc_of s"
        by (simp add: mult.commute)
      from elemInRange_eq [OF assms(2,3) D(3,4) V sl
          lowPrime_le_highPrime [OF m(1) assms(4) xr] highPrime_less [OF m(1)]
          lowPrime_le_highPrime [OF m(2) assms(6) yr] highPrime_less [OF m(2)]]
      show ?thesis by simp
    qed
    have "containsElement s p1 p2 q1 q2 =
        for_loop [p1 div ?m..<Suc (p2 div ?m)]
          (\<lambda>x. for_loop [q1 div ?mc..<Suc (q2 div ?mc)]
             (\<lambda>y found. if found then Some True else
                elemInRange s ?m ?mc
                  (lowPrime x p1 ?m) (highPrime x p2 ?m) (lowPrime y q1 ?mc) (highPrime y q2 ?mc)
                  (kc_of s * x + y)))
          False"
      unfolding containsElement_def elemInRangeInit_def
      by (simp only: L nf if_True if_False D(1,2) not_False_eq_True)
    also have "\<dots> = Some (False \<or> (\<exists>x \<in> set [p1 div ?m..<Suc (p2 div ?m)].
        \<exists>y \<in> set [q1 div ?mc..<Suc (q2 div ?mc)].
          NE s ?d (lowPrime x p1 ?m) (highPrime x p2 ?m) (lowPrime y q1 ?mc) (highPrime y q2 ?mc)
            (kc_of s * x + y)))"
      by (rule for_loop_found) (rule body)
    also have "(False \<or> (\<exists>x \<in> set [p1 div ?m..<Suc (p2 div ?m)].
        \<exists>y \<in> set [q1 div ?mc..<Suc (q2 div ?mc)].
          NE s ?d (lowPrime x p1 ?m) (highPrime x p2 ?m) (lowPrime y q1 ?mc) (highPrime y q2 ?mc)
            (kc_of s * x + y))) \<longleftrightarrow>
        (\<exists>r c. p1 \<le> r \<and> r \<le> p2 \<and> q1 \<le> c \<and> c \<le> q2 \<and> cell s r c \<noteq> null_of s)"
    proof -
      have c: "NE s ?d (lowPrime x p1 ?m) (highPrime x p2 ?m) (lowPrime y q1 ?mc)
            (highPrime y q2 ?mc) (kc_of s * x + y) \<longleftrightarrow>
          set (rangeList s ?d (lowPrime x p1 ?m) (highPrime x p2 ?m)
            (lowPrime y q1 ?mc) (highPrime y q2 ?mc) (0 + ?m * x) (0 + ?mc * y)
            (kc_of s * x + y)) \<noteq> {}"
        if "x \<in> set [p1 div ?m..<Suc (p2 div ?m)]" "y \<in> set [q1 div ?mc..<Suc (q2 div ?mc)]"
        for x y
        using rng [OF that]
        by (intro NE_rangeList [OF D(3,4)] lowPrime_le_highPrime highPrime_less m assms(4,6))
          simp_all
      have "(\<exists>r c. p1 \<le> r \<and> r \<le> p2 \<and> q1 \<le> c \<and> c \<le> q2 \<and> cell s r c \<noteq> null_of s) \<longleftrightarrow>
          set (rangeTop s p1 p2 q1 q2) \<noteq> {}"
        unfolding set_rangeTop [OF assms(1) L assms(4,5,6,7)] by blast
      also have "\<dots> \<longleftrightarrow> (\<exists>x \<in> set [p1 div ?m..<Suc (p2 div ?m)].
          \<exists>y \<in> set [q1 div ?mc..<Suc (q2 div ?mc)].
          set (rangeList s ?d (lowPrime x p1 ?m) (highPrime x p2 ?m)
            (lowPrime y q1 ?mc) (highPrime y q2 ?mc) (0 + ?m * x) (0 + ?mc * y)
            (kc_of s * x + y)) \<noteq> {})"
        unfolding rangeTop_def by (simp del: upt_Suc)
      also have "\<dots> \<longleftrightarrow> (\<exists>x \<in> set [p1 div ?m..<Suc (p2 div ?m)].
          \<exists>y \<in> set [q1 div ?mc..<Suc (q2 div ?mc)].
          NE s ?d (lowPrime x p1 ?m) (highPrime x p2 ?m) (lowPrime y q1 ?mc) (highPrime y q2 ?mc)
            (kc_of s * x + y))"
        using c by blast
      finally show ?thesis by simp
    qed
    finally show ?thesis .
  qed
qed

subsection \<open>containsElement\<close>

text \<open>
  C5 as stated (also after \<open>setNull\<close> calls, \<open>containsElement\<close> is true exactly when the
  rectangle holds a non-null cell) fails: build the object for the 2x2 matrix with the single
  entry 1 at (0,0), \<open>kr = kc = 2\<close>, and call \<open>setNull(0, 0)\<close>. Every cell is null now, but
  \<open>L_\<close> is not empty and the query for the whole matrix takes the shortcut and returns true.
\<close>

theorem containsElement_setNull_counterexample:
  "KrKcTree_matrix [[1, 0], [0, 0 :: int]] 2 2 0 =
     Some \<lparr>T_of = [], L_of = [1, 0, 0, 0], h_of = 1, kr_of = 2, kc_of = 2,
           numRows_of = 2, numCols_of = 2, null_of = 0\<rparr> \<and>
   setNull \<lparr>T_of = [], L_of = [1, 0, 0, 0 :: int], h_of = 1, kr_of = 2, kc_of = 2,
           numRows_of = 2, numCols_of = 2, null_of = 0\<rparr> 0 0 =
     Some \<lparr>T_of = [], L_of = [0, 0, 0, 0], h_of = 1, kr_of = 2, kc_of = 2,
           numRows_of = 2, numCols_of = 2, null_of = 0\<rparr> \<and>
   containsElement \<lparr>T_of = [], L_of = [0, 0, 0, 0 :: int], h_of = 1, kr_of = 2, kc_of = 2,
           numRows_of = 2, numCols_of = 2, null_of = 0\<rparr> 0 1 0 1 = Some True \<and>
   getElement \<lparr>T_of = [], L_of = [0, 0, 0, 0 :: int], h_of = 1, kr_of = 2, kc_of = 2,
           numRows_of = 2, numCols_of = 2, null_of = 0\<rparr> 0 0 = Some 0 \<and>
   getElement \<lparr>T_of = [], L_of = [0, 0, 0, 0 :: int], h_of = 1, kr_of = 2, kc_of = 2,
           numRows_of = 2, numCols_of = 2, null_of = 0\<rparr> 0 1 = Some 0 \<and>
   getElement \<lparr>T_of = [], L_of = [0, 0, 0, 0 :: int], h_of = 1, kr_of = 2, kc_of = 2,
           numRows_of = 2, numCols_of = 2, null_of = 0\<rparr> 1 0 = Some 0 \<and>
   getElement \<lparr>T_of = [], L_of = [0, 0, 0, 0 :: int], h_of = 1, kr_of = 2, kc_of = 2,
           numRows_of = 2, numCols_of = 2, null_of = 0\<rparr> 1 1 = Some 0"
  by code_simp

text \<open>
  C5, amended: on an object as the builders leave it (the invariant holds, no group of
  \<open>T_\<close> is all zero and no group of \<open>L_\<close> is all null, which a later \<open>setNull\<close> may
  break) and whose null element is 0, \<open>containsElement(i1, i2, j1, j2)\<close> returns, for every
  rectangle with \<open>i1 \<le> i2 < numRows\<close> and \<open>j1 \<le> j2 < numCols\<close>, and it returns true exactly
  when \<open>getElement(i, j)\<close> is not null for some cell \<open>(i, j)\<close> of the rectangle.
\<close>

theorem containsElement_correct:
  fixes s :: "('e::zero) KrKcTree"
  assumes "valid s" "pruned s" "null_of s = 0"
    "i1 \<le> i2" "i2 < numRows_of s" "j1 \<le> j2" "j2 < numCols_of s"
  shows "containsElement s i1 i2 j1 j2 =
     Some (\<exists>i j. i1 \<le> i \<and> i \<le> i2 \<and> j1 \<le> j \<and> j \<le> j2 \<and>
             getElement s i j \<noteq> Some (null_of s))"
proof -
  have "cell s i j \<noteq> null_of s \<longleftrightarrow> getElement s i j \<noteq> Some (null_of s)"
    if "i \<le> i2" "j \<le> j2" for i j
    using getElement_cell [OF assms(1), of i j] that assms(5,7) by simp
  then have "(\<exists>i j. i1 \<le> i \<and> i \<le> i2 \<and> j1 \<le> j \<and> j \<le> j2 \<and> cell s i j \<noteq> null_of s) \<longleftrightarrow>
      (\<exists>i j. i1 \<le> i \<and> i \<le> i2 \<and> j1 \<le> j \<and> j \<le> j2 \<and> getElement s i j \<noteq> Some (null_of s))"
    by blast
  with containsElement_eq [OF assms] show ?thesis by simp
qed

lemma scenarioA_pruned: "pruned scenarioA"
  by code_simp

theorem containsElement_correct_witness:
  "valid scenarioA \<and> pruned scenarioA \<and> null_of scenarioA = 0 \<and>
   (2::nat) \<le> 3 \<and> 3 < numRows_of scenarioA \<and> (0::nat) \<le> 1 \<and> 1 < numCols_of scenarioA \<and>
   containsElement scenarioA 2 3 0 1 = Some False \<and>
   \<not> (\<exists>i j. 2 \<le> i \<and> i \<le> 3 \<and> 0 \<le> j \<and> j \<le> 1 \<and>
          getElement scenarioA i j \<noteq> Some (null_of scenarioA))"
proof -
  have r: "null_of scenarioA = 0" "(2::nat) \<le> 3" "3 < numRows_of scenarioA" "(0::nat) \<le> 1"
    "1 < numCols_of scenarioA"
    by (simp_all add: scenarioA_def)
  have e: "containsElement scenarioA 2 3 0 1 = Some False"
    by code_simp
  from containsElement_correct [OF scenarioA_valid scenarioA_pruned r] e
    scenarioA_valid scenarioA_pruned r
  show ?thesis by simp
qed

subsection \<open>Equivalence of the construction modes\<close>

text \<open>
  C2 (all construction modes produce the same \<open>T\<close> and \<open>L\<close>): the relation with the single
  element 5 at row 0, column 2, for \<open>kr = kc = 2\<close> and \<open>null = 0\<close>. The matrix-based
  constructor stores the element 5 in \<open>L\<close>; the list-of-lists constructor with \<open>mode = 2\<close>
  stores 1, since \<open>insert\<close> assigns the literal 1 to the leaf cell and never reads its
  parameter \<open>val\<close>. With the height 1 the same constructor stores the element itself.
\<close>

theorem mode2_stores_one:
  "KrKcTree_matrix [[0, 0, 5 :: int]] 2 2 0 =
     Some \<lparr>T_of = [False, True, False, False], L_of = [5, 0, 0, 0], h_of = 2, kr_of = 2,
           kc_of = 2, numRows_of = 4, numCols_of = 4, null_of = 0\<rparr> \<and>
   KrKcTree_lists_mode2 [[(2, 5 :: int)]] 2 2 0 =
     Some \<lparr>T_of = [False, True, False, False], L_of = [1, 0, 0, 0], h_of = 2, kr_of = 2,
           kc_of = 2, numRows_of = 4, numCols_of = 4, null_of = 0\<rparr> \<and>
   KrKcTree_lists_mode2 [[(1, 5 :: int)]] 2 2 0 =
     Some \<lparr>T_of = [], L_of = [0, 5, 0, 0], h_of = 1, kr_of = 2,
           kc_of = 2, numRows_of = 2, numCols_of = 2, null_of = 0\<rparr>"
  by code_simp

subsection \<open>The matrix constructor\<close>

lemma matEntry_ment: "rect mat \<Longrightarrow> matEntry mat null r c = Some (ment mat null r c)"
  by (simp add: matEntry_def ment_def nth_opt_def rect_def list_all_length)

lemma for_loop_map: "for_loop (map f ys) body st = for_loop ys (\<lambda>y. body (f y)) st"
proof (induction ys arbitrary: st)
  case Nil
  show ?case by simp
next
  case (Cons y ys)
  show ?case by (cases "body (f y) st") (simp_all add: Cons.IH)
qed

lemma for_loop_product:
  "for_loop xs (\<lambda>x. for_loop ys (body x)) st =
   for_loop (concat (map (\<lambda>x. map (Pair x) ys) xs)) (\<lambda>(x, y). body x y) st"
proof (induction xs arbitrary: st)
  case Nil
  show ?case by simp
next
  case (Cons x xs)
  show ?case
    by (cases "for_loop ys (body x) st")
       (simp_all add: for_loop_append for_loop_map Cons.IH)
qed

lemma for_loop_vals:
  "(\<And>x. x \<in> set xs \<Longrightarrow> g x = Some (f x)) \<Longrightarrow>
   for_loop xs (\<lambda>x C. map_option (\<lambda>v. C @ [v]) (g x)) C0 = Some (C0 @ map f xs)"
  by (induction xs arbitrary: C0) simp_all

lemma matrixGroup_eq:
  assumes "rect mat"
  shows "matrixGroup s mat p q =
     Some (map (\<lambda>(i, j). ment mat (null_of s) (p + i) (q + j)) (slots (kr_of s) (kc_of s)))"
proof -
  have "matrixGroup s mat p q =
      for_loop (slots (kr_of s) (kc_of s))
        (\<lambda>x C. map_option (\<lambda>v. C @ [v]) (matEntry mat (null_of s) (p + fst x) (q + snd x))) []"
    unfolding matrixGroup_def for_loop_product slots_def case_prod_unfold ..
  also have "\<dots> = Some ([] @ map (\<lambda>x. ment mat (null_of s) (p + fst x) (q + snd x))
      (slots (kr_of s) (kc_of s)))"
    by (rule for_loop_vals) (rule matEntry_ment [OF assms])
  finally show ?thesis by (simp add: case_prod_unfold)
qed

lemma length_lcat [simp]: "length (lcat A B) = min (length A) (length B)"
  by (simp add: lcat_def)

lemma lcat_assoc: "lcat (lcat A B) C = lcat A (lcat B C)"
  unfolding lcat_def
proof (induction A arbitrary: B C)
  case Nil
  show ?case by simp
next
  case (Cons a A)
  show ?case
  proof (cases B)
    case Nil
    then show ?thesis by simp
  next
    case B: (Cons b B')
    show ?thesis
    proof (cases C)
      case Nil
      then show ?thesis by simp
    next
      case (Cons c C')
      with B Cons.IH [of B' C'] show ?thesis by simp
    qed
  qed
qed

lemma lcat_Nil_right: "length A = d \<Longrightarrow> lcat A (replicate d []) = A"
  unfolding lcat_def by (induction A arbitrary: d) auto

lemma lcat_Nil_left: "length A = d \<Longrightarrow> lcat (replicate d []) A = A"
  unfolding lcat_def by (induction A arbitrary: d) auto

lemma lcat_Cons [simp]: "lcat (a # A) (b # B) = (a @ b) # lcat A B"
  by (simp add: lcat_def)

lemma length_zipcat: "\<forall>xs \<in> set xss. length xs = d \<Longrightarrow> length (zipcat d xss) = d"
  unfolding zipcat_def by (induction xss) simp_all

lemma zipcat_Cons: "zipcat d (xs # xss) = lcat xs (zipcat d xss)"
  by (simp add: zipcat_def)

lemma zipcat_Nil: "zipcat d [] = replicate d []"
  by (simp add: zipcat_def)

lemma length_lev [simp]: "length (lev kr kc null mat d p q) = d"
proof (induction d arbitrary: p q)
  case 0
  show ?case by simp
next
  case (Suc d)
  have "length (zipcat d (map (\<lambda>(i, j). lev kr kc null mat d (p + i * kr ^ Suc d)
      (q + j * kc ^ Suc d)) (slots kr kc))) = d"
    by (rule length_zipcat) (auto simp: Suc)
  then show ?case by simp
qed

lemma children_loop:
  assumes step: "\<And>i j pre' cur' s'. h_of s' = h \<Longrightarrow> kr_of s' = kr \<Longrightarrow> kc_of s' = kc \<Longrightarrow>
      null_of s' = null \<Longrightarrow> length pre' = n \<Longrightarrow> length cur' = d \<Longrightarrow>
      bld i j (pre' @ cur', s') =
        Some (nef i j, pre' @ lcat cur' (levf i j), s'\<lparr>L_of := L_of s' @ lvsf i j\<rparr>)"
    and len: "\<And>i j. length (levf i j) = d"
  shows "h_of s0 = h \<Longrightarrow> kr_of s0 = kr \<Longrightarrow> kc_of s0 = kc \<Longrightarrow> null_of s0 = null \<Longrightarrow>
    length pre = n \<Longrightarrow> length cur = d \<Longrightarrow>
    for_loop cs (\<lambda>(i, j) (C, st'). Option.bind (bld i j st') (\<lambda>(b, st''). Some (C @ [b], st'')))
      (C0, pre @ cur, s0) =
    Some (C0 @ map (\<lambda>(i, j). nef i j) cs,
          pre @ lcat cur (zipcat d (map (\<lambda>(i, j). levf i j) cs)),
          s0\<lparr>L_of := L_of s0 @ concat (map (\<lambda>(i, j). lvsf i j) cs)\<rparr>)"
proof (induction cs arbitrary: C0 cur s0)
  case Nil
  then show ?case by (simp add: zipcat_Nil lcat_Nil_right)
next
  case (Cons c cs)
  obtain i j where c: "c = (i, j)" by (cases c)
  let ?s1 = "s0\<lparr>L_of := L_of s0 @ lvsf i j\<rparr>"
  have "for_loop (c # cs)
      (\<lambda>(i, j) (C, st'). Option.bind (bld i j st') (\<lambda>(b, st''). Some (C @ [b], st'')))
      (C0, pre @ cur, s0) =
    for_loop cs
      (\<lambda>(i, j) (C, st'). Option.bind (bld i j st') (\<lambda>(b, st''). Some (C @ [b], st'')))
      (C0 @ [nef i j], pre @ lcat cur (levf i j), ?s1)"
    using step [OF Cons.prems] by (simp add: c)
  also have "\<dots> = Some ((C0 @ [nef i j]) @ map (\<lambda>(i, j). nef i j) cs,
          pre @ lcat (lcat cur (levf i j)) (zipcat d (map (\<lambda>(i, j). levf i j) cs)),
          ?s1\<lparr>L_of := L_of ?s1 @ concat (map (\<lambda>(i, j). lvsf i j) cs)\<rparr>)"
    using Cons.prems len by (intro Cons.IH) simp_all
  finally show ?case
    by (simp add: c zipcat_Cons lcat_assoc)
qed

lemma build_eq:
  assumes "rect mat" "0 < kr" "0 < kc"
  shows "h_of s = l + d \<Longrightarrow> kr_of s = kr \<Longrightarrow> kc_of s = kc \<Longrightarrow> null_of s = null \<Longrightarrow>
     length pre + 1 = l \<Longrightarrow> length cur = d \<Longrightarrow>
     buildFromMatrix mat (kr ^ Suc d) (kc ^ Suc d) l p q (pre @ cur, s) =
       Some (ne kr kc null mat d p q, pre @ lcat cur (lev kr kc null mat d p q),
             s\<lparr>L_of := L_of s @ leaves kr kc null mat d p q\<rparr>)"
proof (induction d arbitrary: l p q pre cur s)
  case 0
  then show ?case
    by (subst buildFromMatrix.simps) (simp add: matrixGroup_eq [OF assms(1)] lcat_def)
next
  case (Suc d)
  from Suc.prems(6) obtain c0 rest where cur: "cur = c0 # rest" "length rest = d"
    by (cases cur) auto
  let ?nef = "\<lambda>i j. ne kr kc null mat d (p + i * kr ^ Suc d) (q + j * kc ^ Suc d)"
  let ?levf = "\<lambda>i j. lev kr kc null mat d (p + i * kr ^ Suc d) (q + j * kc ^ Suc d)"
  let ?lvsf = "\<lambda>i j. leaves kr kc null mat d (p + i * kr ^ Suc d) (q + j * kc ^ Suc d)"
  let ?bld = "\<lambda>i j. buildFromMatrix mat (kr ^ Suc d) (kc ^ Suc d) (l + 1)
      (p + i * kr ^ Suc d) (q + j * kc ^ Suc d)"
  let ?C = "map (\<lambda>(i, j). ?nef i j) (slots kr kc)"
  let ?Z = "zipcat d (map (\<lambda>(i, j). ?levf i j) (slots kr kc))"
  let ?s' = "s\<lparr>L_of := L_of s @ concat (map (\<lambda>(i, j). ?lvsf i j) (slots kr kc))\<rparr>"
  have step: "?bld i j (pre' @ cur', s') =
        Some (?nef i j, pre' @ lcat cur' (?levf i j), s'\<lparr>L_of := L_of s' @ ?lvsf i j\<rparr>)"
    if "h_of s' = h_of s" "kr_of s' = kr" "kc_of s' = kc" "null_of s' = null"
      "length pre' = l" "length cur' = d" for i j pre' cur' s'
    using that Suc.prems(1) by (intro Suc.IH) simp_all
  have loop: "for_loop (slots kr kc)
      (\<lambda>(i, j) (C, st'). Option.bind (?bld i j st') (\<lambda>(b, st''). Some (C @ [b], st'')))
      ([], (pre @ [c0]) @ rest, s) =
    Some ([] @ ?C, (pre @ [c0]) @ lcat rest ?Z, ?s')"
    using Suc.prems(2,3,4,5) cur(2)
    by (intro children_loop [where h = "h_of s" and n = l, OF step]) simp_all
  have dv: "kr ^ Suc (Suc d) div kr = kr ^ Suc d" "kc ^ Suc (Suc d) div kc = kc ^ Suc d"
    using assms(2,3) by simp_all
  from Suc.prems(1) have lh: "l \<noteq> h_of s" by simp
  have "buildFromMatrix mat (kr ^ Suc (Suc d)) (kc ^ Suc (Suc d)) l p q (pre @ cur, s) =
      Option.bind
        (for_loop (slots kr kc)
          (\<lambda>(i, j) (C, st'). Option.bind (?bld i j st') (\<lambda>(b, st''). Some (C @ [b], st'')))
          ([], pre @ cur, s))
        (\<lambda>(C, levels', s').
           if isAllZero C then Some (False, levels', s')
           else map_option (\<lambda>lv. (True, lv, s')) (append_level levels' (l - 1) C))"
    by (subst buildFromMatrix.simps)
       (simp only: prod.case lh if_False Suc.prems(2,3) dv for_loop_product slots_def)
  also have "\<dots> = (if isAllZero ?C then Some (False, (pre @ [c0]) @ lcat rest ?Z, ?s')
      else map_option (\<lambda>lv. (True, lv, ?s')) (append_level ((pre @ [c0]) @ lcat rest ?Z) (l - 1) ?C))"
    using loop by (simp add: cur)
  also have "\<dots> = Some (ne kr kc null mat (Suc d) p q, pre @ lcat cur (lev kr kc null mat (Suc d) p q),
      s\<lparr>L_of := L_of s @ leaves kr kc null mat (Suc d) p q\<rparr>)"
  proof -
    from Suc.prems(5) have i: "l - 1 = length pre" by simp
    have "append_level ((pre @ [c0]) @ lcat rest ?Z) (l - 1) ?C =
        Some (pre @ (c0 @ ?C) # lcat rest ?Z)"
      unfolding i append_level_def by (simp add: nth_append)
    then show ?thesis
      by (simp add: cur)
  qed
  finally show ?case .
qed

lemma wfl_lcat:
  "wfl k n1 A l1 \<Longrightarrow> wfl k n2 B l2 \<Longrightarrow> length A = length B \<Longrightarrow>
   wfl k (n1 + n2) (lcat A B) (l1 + l2)"
proof (induction A arbitrary: B n1 n2)
  case Nil
  then show ?case by (simp add: lcat_def)
next
  case (Cons a A)
  from Cons.prems(3) obtain b B' where B: "B = b # B'" "length A = length B'"
    by (cases B) auto
  from Cons.prems(1) have a: "length a = n1" "wfl k (k * ones a) A l1" by simp_all
  from Cons.prems(2) B have b: "length b = n2" "wfl k (k * ones b) B' l2" by simp_all
  from Cons.IH [OF a(2) b(2) B(2)] a(1) b(1) show ?case
    by (simp add: B distrib_left)
qed

lemma wfl_replicate: "wfl k 0 (replicate d []) 0"
  by (induction d) simp_all

lemma wfl_zipcat:
  "\<forall>x \<in> set xs. wfl k (nf x) (f x) (lf x) \<and> length (f x) = d \<Longrightarrow>
   wfl k (sum_list (map nf xs)) (zipcat d (map f xs)) (sum_list (map lf xs))"
proof (induction xs)
  case Nil
  show ?case by (simp add: zipcat_Nil wfl_replicate)
next
  case (Cons x xs)
  from Cons.prems have x: "wfl k (nf x) (f x) (lf x)" "length (f x) = d"
    and xs: "\<forall>x \<in> set xs. wfl k (nf x) (f x) (lf x) \<and> length (f x) = d" by simp_all
  have "length (zipcat d (map f xs)) = d"
    using xs by (intro length_zipcat) simp
  with wfl_lcat [OF x(1) Cons.IH [OF xs]] x(2) show ?case
    by (simp add: zipcat_Cons)
qed

lemma sum_if_ones: "sum_list (map (\<lambda>c. if P c then k else 0) xs) = k * ones (map P xs)"
  by (induction xs) (simp_all add: ones_def)

lemma isAllZero_ones: "isAllZero bs \<longleftrightarrow> ones bs = 0"
  by (induction bs) (simp_all add: isAllZero_def ones_def)

lemma nth_concat_uniform:
  "\<forall>xs \<in> set xss. length xs = k \<Longrightarrow> i < length xss \<Longrightarrow> j < k \<Longrightarrow>
   concat xss ! (i * k + j) = xss ! i ! j"
proof (induction xss arbitrary: i)
  case Nil
  then show ?case by simp
next
  case (Cons x xss)
  show ?case
  proof (cases i)
    case 0
    with Cons.prems show ?thesis by (simp add: nth_append)
  next
    case (Suc i')
    with Cons.prems have "concat xss ! (i' * k + j) = xss ! i' ! j"
      by (intro Cons.IH) simp_all
    with Cons.prems Suc show ?thesis by (simp add: nth_append)
  qed
qed

lemma length_slots [simp]: "length (slots kr kc) = kr * kc"
  by (simp add: slots_def length_concat comp_def sum_list_triv)

lemma slots_nth:
  assumes "i < kr" "j < kc"
  shows "slots kr kc ! (i * kc + j) = (i, j)"
proof -
  have "concat (map (\<lambda>i. map (Pair i) [0..<kc]) [0..<kr]) ! (i * kc + j) =
      (map (\<lambda>i. map (Pair i) [0..<kc]) [0..<kr]) ! i ! j"
    using assms by (intro nth_concat_uniform) auto
  with assms show ?thesis by (simp add: slots_def)
qed

lemma not_ne_lev:
  "\<not> ne kr kc null mat d p q \<Longrightarrow>
   lev kr kc null mat d p q = replicate d [] \<and> leaves kr kc null mat d p q = []"
proof (induction d arbitrary: p q)
  case 0
  then show ?case by simp
next
  case (Suc d)
  let ?cs = "slots kr kc"
  from Suc.prems have all: "\<forall>c \<in> set ?cs.
      \<not> ne kr kc null mat d (p + fst c * kr ^ Suc d) (q + snd c * kc ^ Suc d)"
    by (auto simp: isAllZero_def list_all_iff)
  have l: "lev kr kc null mat d (p + fst c * kr ^ Suc d) (q + snd c * kc ^ Suc d) = replicate d []"
    and v: "leaves kr kc null mat d (p + fst c * kr ^ Suc d) (q + snd c * kc ^ Suc d) = []"
    if "c \<in> set ?cs" for c
    using Suc.IH all that by blast+
  have "zipcat d (map (\<lambda>c. lev kr kc null mat d (p + fst c * kr ^ Suc d) (q + snd c * kc ^ Suc d)) cs) =
      replicate d []" if "set cs \<subseteq> set ?cs" for cs
    using that
  proof (induction cs)
    case Nil
    show ?case by (simp add: zipcat_Nil)
  next
    case (Cons c cs)
    then have "zipcat d (map (\<lambda>c. lev kr kc null mat d (p + fst c * kr ^ Suc d) (q + snd c * kc ^ Suc d)) cs) =
        replicate d []" and "c \<in> set (slots kr kc)"
      by simp_all
    then show ?case
      unfolding list.map zipcat_Cons by (simp only: l lcat_Nil_left length_replicate)
  qed
  from this [of ?cs] have Z: "zipcat d (map (\<lambda>(i, j). lev kr kc null mat d (p + i * kr ^ Suc d)
      (q + j * kc ^ Suc d)) ?cs) = replicate d []"
    by (simp add: case_prod_unfold)
  have "concat (map (\<lambda>c. leaves kr kc null mat d (p + fst c * kr ^ Suc d) (q + snd c * kc ^ Suc d)) ?cs) = []"
    using v by simp
  with Z Suc.prems show ?case
    by (simp add: case_prod_unfold)
qed

lemma wfl_lev:
  "wfl (kr * kc) (if ne kr kc null mat d p q then kr * kc else 0)
     (lev kr kc null mat d p q) (length (leaves kr kc null mat d p q))"
proof (induction d arbitrary: p q)
  case 0
  show ?case by simp
next
  case (Suc d)
  let ?k = "kr * kc"
  let ?cs = "slots kr kc"
  let ?nef = "\<lambda>c. ne kr kc null mat d (p + fst c * kr ^ Suc d) (q + snd c * kc ^ Suc d)"
  let ?levf = "\<lambda>c. lev kr kc null mat d (p + fst c * kr ^ Suc d) (q + snd c * kc ^ Suc d)"
  let ?lvsf = "\<lambda>c. leaves kr kc null mat d (p + fst c * kr ^ Suc d) (q + snd c * kc ^ Suc d)"
  have "\<forall>c \<in> set ?cs. wfl ?k (if ?nef c then ?k else 0) (?levf c) (length (?lvsf c)) \<and>
      length (?levf c) = d"
    using Suc.IH by simp
  from wfl_zipcat [OF this]
  have Z: "wfl ?k (?k * ones (map ?nef ?cs)) (zipcat d (map ?levf ?cs))
      (length (concat (map ?lvsf ?cs)))"
    by (simp add: sum_if_ones length_concat comp_def)
  show ?case
  proof (cases "ne kr kc null mat (Suc d) p q")
    case True
    with Z show ?thesis by (simp add: case_prod_unfold)
  next
    case False
    then have "ones (map ?nef ?cs) = 0"
      by (simp add: isAllZero_ones case_prod_unfold)
    with Z False show ?thesis by (simp add: case_prod_unfold)
  qed
qed

lemma not_ne_null:
  "\<not> ne kr kc null mat d p q \<Longrightarrow> 0 < kr \<Longrightarrow> 0 < kc \<Longrightarrow> r < kr ^ Suc d \<Longrightarrow> c < kc ^ Suc d \<Longrightarrow>
   ment mat null (p + r) (q + c) = null"
proof (induction d arbitrary: p q r c)
  case 0
  then have rc: "r < kr" "c < kc" by simp_all
  from 0 have "\<forall>x \<in> set (slots kr kc). ment mat null (p + fst x) (q + snd x) = null"
    by (auto simp: isAll_def list_all_iff)
  moreover have "(r, c) \<in> set (slots kr kc)"
    using slots_nth [OF rc] slot_less [OF rc] by (metis length_slots nth_mem)
  ultimately show ?case by auto
next
  case (Suc d)
  let ?m = "kr ^ Suc d" and ?mc = "kc ^ Suc d"
  from Suc.prems have i: "r div ?m < kr" and j: "c div ?mc < kc"
    by (auto intro!: less_mult_imp_div_less simp: mult.commute)
  from Suc.prems have "\<forall>x \<in> set (slots kr kc).
      \<not> ne kr kc null mat d (p + fst x * ?m) (q + snd x * ?mc)"
    by (auto simp: isAllZero_def list_all_iff)
  moreover have "(r div ?m, c div ?mc) \<in> set (slots kr kc)"
    using slots_nth [OF i j] slot_less [OF i j] by (metis length_slots nth_mem)
  ultimately have "\<not> ne kr kc null mat d (p + r div ?m * ?m) (q + c div ?mc * ?mc)"
    by auto
  from Suc.IH [OF this Suc.prems(2,3), of "r mod ?m" "c mod ?mc"] Suc.prems(2,3)
  have "ment mat null (p + r div ?m * ?m + r mod ?m) (q + c div ?mc * ?mc + c mod ?mc) = null"
    by simp
  then show ?case
    unfolding add.assoc div_mult_mod_eq .
qed

lemma lpos_shift:
  assumes "0 < kr" "0 < kc"
  shows "wfl (kr * kc) nA A lA \<Longrightarrow> wfl (kr * kc) nS S lS \<Longrightarrow> length A = length S \<Longrightarrow>
    length B = length S \<Longrightarrow> x0 < nS \<Longrightarrow> r < kr ^ length S \<Longrightarrow> c < kc ^ length S \<Longrightarrow>
    lpos kr kc (lcat (lcat A S) B) r c (nA + x0) = map_option (\<lambda>x. lA + x) (lpos kr kc S r c x0) \<and>
    (\<forall>x. lpos kr kc S r c x0 = Some x \<longrightarrow> x < lS)"
proof (induction S arbitrary: A B nA nS x0 r c)
  case Nil
  then show ?case by (simp add: lcat_def)
next
  case (Cons sv S)
  let ?k = "kr * kc"
  from Cons.prems(3) obtain a A' where A: "A = a # A'" "length A' = length S" by (cases A) auto
  from Cons.prems(4) obtain b B' where B: "B = b # B'" "length B' = length S" by (cases B) auto
  from Cons.prems(1) A have a: "length a = nA" "wfl ?k (?k * ones a) A' lA" by simp_all
  from Cons.prems(2) have sv: "length sv = nS" "wfl ?k (?k * ones sv) S lS" by simp_all
  have len: "length (lcat (lcat A' S) B') = length S" using A(2) B(2) by simp
  have nth: "((a @ sv) @ b) ! (nA + x0) = sv ! x0"
    using a(1) sv(1) Cons.prems(5) by (simp add: nth_append)
  have tk: "ones (take (nA + x0) ((a @ sv) @ b)) = ones a + ones (take x0 sv)"
    using a(1) sv(1) Cons.prems(5) by simp
  show ?case
  proof (cases "sv ! x0")
    case False
    with nth show ?thesis by (simp add: A B len)
  next
    case True
    let ?sl = "r div kr ^ length S * kc + c div kc ^ length S"
    from Cons.prems(6,7) assms have sl: "?sl < ?k"
      by (intro slot_of_less) simp_all
    from True Cons.prems(5) sv(1) have "ones (take x0 sv) < ones (take nS sv)"
      by (intro ones_take_less) simp_all
    then have "Suc (ones (take x0 sv)) \<le> ones sv" using sv(1) by simp
    then have "?k * Suc (ones (take x0 sv)) \<le> ?k * ones sv" by (rule mult_le_mono2)
    with sl have x0': "?k * ones (take x0 sv) + ?sl < ?k * ones sv" by simp
    have m: "r mod kr ^ length S < kr ^ length S" "c mod kc ^ length S < kc ^ length S"
      using assms by simp_all
    from Cons.IH [OF a(2) sv(2) A(2) B(2) x0' m]
    have IH: "lpos kr kc (lcat (lcat A' S) B') (r mod kr ^ length S) (c mod kc ^ length S)
          (?k * ones a + (?k * ones (take x0 sv) + ?sl)) =
        map_option ((+) lA) (lpos kr kc S (r mod kr ^ length S) (c mod kc ^ length S)
          (?k * ones (take x0 sv) + ?sl))"
      and IHb: "\<forall>x. lpos kr kc S (r mod kr ^ length S) (c mod kc ^ length S)
          (?k * ones (take x0 sv) + ?sl) = Some x \<longrightarrow> x < lS"
      by simp_all
    have e: "?k * ones (take (nA + x0) ((a @ sv) @ b)) + r div kr ^ length S * kc
        + c div kc ^ length S = ?k * ones a + (?k * ones (take x0 sv) + ?sl)"
      unfolding tk by (simp add: distrib_left)
    have "lpos kr kc (lcat (lcat A (sv # S)) B) r c (nA + x0) =
        lpos kr kc (lcat (lcat A' S) B') (r mod kr ^ length S) (c mod kc ^ length S)
          (?k * ones a + (?k * ones (take x0 sv) + ?sl))"
      by (simp only: A B lcat_Cons lpos.simps len nth True if_True e)
    moreover have "lpos kr kc (sv # S) r c x0 =
        lpos kr kc S (r mod kr ^ length S) (c mod kc ^ length S) (?k * ones (take x0 sv) + ?sl)"
      by (simp only: lpos.simps True if_True add.assoc)
    ultimately show ?thesis
      using IH IHb by (simp only: comp_def)
  qed
qed

lemma zipcat_append:
  "\<forall>xs \<in> set xss. length xs = d \<Longrightarrow> \<forall>ys \<in> set yss. length ys = d \<Longrightarrow>
   zipcat d (xss @ yss) = lcat (zipcat d xss) (zipcat d yss)"
proof (induction xss)
  case Nil
  then show ?case by (simp add: zipcat_Nil lcat_Nil_left length_zipcat)
next
  case (Cons xs xss)
  then show ?case by (simp add: zipcat_Cons lcat_assoc)
qed

lemma wfl_wf_chain: "wfl k n lvs nL \<Longrightarrow> wf_chain k n (length lvs) (concat lvs) nL"
  by (induction lvs arbitrary: n) simp_all

lemma lpos_lev:
  assumes k: "0 < kr" "0 < kc"
  shows "ne kr kc null mat d p q \<Longrightarrow> i < kr \<Longrightarrow> j < kc \<Longrightarrow> r < kr ^ d \<Longrightarrow> c < kc ^ d \<Longrightarrow>
    (case lpos kr kc (lev kr kc null mat d p q) r c (i * kc + j) of
       None \<Rightarrow> ment mat null (p + i * kr ^ d + r) (q + j * kc ^ d + c) = null
     | Some x \<Rightarrow> x < length (leaves kr kc null mat d p q) \<and>
         leaves kr kc null mat d p q ! x = ment mat null (p + i * kr ^ d + r) (q + j * kc ^ d + c))"
proof (induction d arbitrary: p q i j r c)
  case 0
  then show ?case
    using slots_nth [of i kr j kc] slot_less [of i kr j kc] by simp
next
  case (Suc d)
  let ?k = "kr * kc"
  let ?cs = "slots kr kc"
  let ?m = "i * kc + j"
  let ?P = "p + i * kr ^ Suc d" and ?Q = "q + j * kc ^ Suc d"
  let ?nef = "\<lambda>x. ne kr kc null mat d (p + fst x * kr ^ Suc d) (q + snd x * kc ^ Suc d)"
  let ?levf = "\<lambda>x. lev kr kc null mat d (p + fst x * kr ^ Suc d) (q + snd x * kc ^ Suc d)"
  let ?lvsf = "\<lambda>x. leaves kr kc null mat d (p + fst x * kr ^ Suc d) (q + snd x * kc ^ Suc d)"
  let ?G = "map ?nef ?cs"
  let ?r = "r mod kr ^ d" and ?c = "c mod kc ^ d"
  let ?i = "r div kr ^ d" and ?j = "c div kc ^ d"
  from Suc.prems have m: "?m < ?k" by (simp add: slot_less)
  then have mlen: "?m < length ?cs" by simp
  have sm: "?cs ! ?m = (i, j)" using Suc.prems by (simp add: slots_nth)
  have Gm: "?G ! ?m = ne kr kc null mat d ?P ?Q"
    using mlen sm by simp
  have lv: "lev kr kc null mat (Suc d) p q = ?G # zipcat d (map ?levf ?cs)"
    using Suc.prems(1) by (simp add: case_prod_unfold)
  have lf: "leaves kr kc null mat (Suc d) p q = concat (map ?lvsf ?cs)"
    by (simp add: case_prod_unfold)
  have rc: "p + i * kr ^ Suc d + r = ?P + ?i * kr ^ d + ?r"
      "q + j * kc ^ Suc d + c = ?Q + ?j * kc ^ d + ?c"
    unfolding add.assoc div_mult_mod_eq by (rule refl)+
  show ?case
  proof (cases "ne kr kc null mat d ?P ?Q")
    case False
    from not_ne_null [OF False k Suc.prems(4,5)]
    have "ment mat null (p + i * kr ^ Suc d + r) (q + j * kc ^ Suc d + c) = null" .
    moreover have "lpos kr kc (lev kr kc null mat (Suc d) p q) r c ?m = None"
      unfolding lv lpos.simps Gm using False by simp
    ultimately show ?thesis by simp
  next
    case True
    from Suc.prems(4,5) k have ij: "?i < kr" "?j < kc"
      by (auto intro!: less_mult_imp_div_less simp: mult.commute)
    have rc': "?r < kr ^ d" "?c < kc ^ d" using k by simp_all
    note IH = Suc.IH [OF True ij rc']
    let ?A = "zipcat d (map ?levf (take ?m ?cs))"
    let ?S = "lev kr kc null mat d ?P ?Q"
    let ?B = "zipcat d (map ?levf (drop (Suc ?m) ?cs))"
    let ?lA = "length (concat (map ?lvsf (take ?m ?cs)))"
    have split: "?cs = take ?m ?cs @ (i, j) # drop (Suc ?m) ?cs"
      using id_take_nth_drop [OF mlen] sm by simp
    have e: "map ?levf ?cs = map ?levf (take ?m ?cs) @ ?S # map ?levf (drop (Suc ?m) ?cs)"
      by (subst split) simp
    have "zipcat d (map ?levf (take ?m ?cs) @ ?S # map ?levf (drop (Suc ?m) ?cs)) =
        lcat ?A (zipcat d (?S # map ?levf (drop (Suc ?m) ?cs)))"
      by (rule zipcat_append) simp_all
    then have Z: "zipcat d (map ?levf ?cs) = lcat (lcat ?A ?S) ?B"
      unfolding e [symmetric] zipcat_Cons lcat_assoc .
    have "\<forall>x \<in> set (take ?m ?cs). wfl ?k (if ?nef x then ?k else 0) (?levf x) (length (?lvsf x)) \<and>
        length (?levf x) = d"
      by (intro ballI conjI wfl_lev length_lev)
    from wfl_zipcat [OF this]
    have wA: "wfl ?k (?k * ones (take ?m ?G)) ?A ?lA"
      by (simp add: sum_if_ones length_concat comp_def take_map)
    have wS: "wfl ?k ?k ?S (length (leaves kr kc null mat d ?P ?Q))"
      using wfl_lev [of kr kc null mat d ?P ?Q] True by simp
    have lenA: "length ?A = length ?S" by (simp add: length_zipcat)
    have lenB: "length ?B = length ?S" by (simp add: length_zipcat)
    have x0: "?i * kc + ?j < ?k" using ij by (rule slot_less)
    have rcl: "?r < kr ^ length ?S" "?c < kc ^ length ?S" using rc' by simp_all
    from lpos_shift [OF k wA wS lenA lenB x0 rcl]
    have sh: "lpos kr kc (zipcat d (map ?levf ?cs)) ?r ?c (?k * ones (take ?m ?G) + (?i * kc + ?j)) =
        map_option (\<lambda>x. ?lA + x) (lpos kr kc ?S ?r ?c (?i * kc + ?j))"
      unfolding Z by blast
    have st: "lpos kr kc (lev kr kc null mat (Suc d) p q) r c ?m =
        map_option (\<lambda>x. ?lA + x) (lpos kr kc ?S ?r ?c (?i * kc + ?j))"
      unfolding lv lpos.simps Gm using True sh by (simp add: length_zipcat add.assoc)
    have "concat (map ?lvsf ?cs) =
        concat (map ?lvsf (take ?m ?cs)) @ leaves kr kc null mat d ?P ?Q @
        concat (map ?lvsf (drop (Suc ?m) ?cs))"
      by (subst split) simp
    then have nthL: "leaves kr kc null mat (Suc d) p q ! (?lA + x) = leaves kr kc null mat d ?P ?Q ! x"
      and lenL: "?lA + x < length (leaves kr kc null mat (Suc d) p q)"
      if "x < length (leaves kr kc null mat d ?P ?Q)" for x
      using that unfolding lf by (simp_all add: nth_append)
    show ?thesis
    proof (cases "lpos kr kc ?S ?r ?c (?i * kc + ?j)")
      case None
      with IH st show ?thesis unfolding rc by simp
    next
      case (Some x)
      with IH have "x < length (leaves kr kc null mat d ?P ?Q)"
        and "leaves kr kc null mat d ?P ?Q ! x = ment mat null (?P + ?i * kr ^ d + ?r) (?Q + ?j * kc ^ d + ?c)"
        by simp_all
      with nthL [of x] lenL [of x] st Some show ?thesis unfolding rc by simp
    qed
  qed
qed

lemma pos_lpos:
  assumes k: "0 < kr_of s" "0 < kc_of s"
  shows "lvl s a n d \<Longrightarrow> drop a (T_of s) = concat lvs \<Longrightarrow> length lvs = d \<Longrightarrow>
    wfl (kr_of s * kc_of s) n lvs nL \<Longrightarrow> i < n \<Longrightarrow> p < kr_of s ^ d \<Longrightarrow> q < kc_of s ^ d \<Longrightarrow>
    pos s d p q (a + i) = map_option (\<lambda>x. length (T_of s) + x) (lpos (kr_of s) (kc_of s) lvs p q i)"
proof (induction d arbitrary: a n lvs i p q)
  case 0
  then show ?case using lvl_leaf [of s a n] by simp
next
  case (Suc d)
  from Suc.prems(3) obtain lv lvs' where lvs: "lvs = lv # lvs'" "length lvs' = d"
    by (cases lvs) auto
  from Suc.prems(4) lvs have lv: "length lv = n"
    and w: "wfl (kr_of s * kc_of s) (kr_of s * kc_of s * ones lv) lvs' nL"
    by simp_all
  from Suc.prems(2) lvs have dr: "drop a (T_of s) = lv @ concat lvs'" by simp
  have Ti: "T_of s ! (a + i) = lv ! i"
  proof -
    from lvl_inT [OF Suc.prems(1,5)] have "T_of s ! (a + i) = drop a (T_of s) ! i" by simp
    then show ?thesis unfolding dr using lv Suc.prems(5) by (simp add: nth_append)
  qed
  have tk: "take i (drop a (T_of s)) = take i lv" "take n (drop a (T_of s)) = lv"
    unfolding dr using lv Suc.prems(5) by simp_all
  have dr': "drop (a + n) (T_of s) = concat lvs'"
  proof -
    have "drop (a + n) (T_of s) = drop n (drop a (T_of s))" by (simp add: add.commute)
    then show ?thesis unfolding dr using lv by simp
  qed
  show ?case
  proof (cases "lv ! i")
    case False
    with Ti show ?thesis by (simp add: lvs)
  next
    case True
    with Ti have t: "T_of s ! (a + i)" by simp
    let ?sl = "(p div kr_of s ^ d) * kc_of s + q div kc_of s ^ d"
    note ps = pos_step [OF Suc.prems(1,5) t k Suc.prems(6,7)]
    have nn: "next_n s a n = kr_of s * kc_of s * ones lv" by (simp add: next_n_def tk)
    have ci: "cidx s a i = kr_of s * kc_of s * ones (take i lv)" by (simp add: cidx_def tk)
    from lvl_next [OF Suc.prems(1)] have l': "lvl s (a + n) (kr_of s * kc_of s * ones lv) d"
      by (simp only: nn)
    have m: "p mod kr_of s ^ d < kr_of s ^ d" "q mod kc_of s ^ d < kc_of s ^ d"
      using k by simp_all
    from ps(2) have b: "cidx s a i + ?sl < kr_of s * kc_of s * ones lv" by (simp only: nn)
    from Suc.IH [OF l' dr' lvs(2) w b m] ps(1)
    have "pos s (Suc d) p q (a + i) = map_option ((+) (length (T_of s)))
        (lpos (kr_of s) (kc_of s) lvs' (p mod kr_of s ^ d) (q mod kc_of s ^ d) (cidx s a i + ?sl))"
      by simp
    then show ?thesis
      using True by (simp add: lvs ci add.assoc)
  qed
qed

lemma logK_from_bound:
  "acc = k ^ e \<Longrightarrow> 2 \<le> k \<Longrightarrow> n \<le> k ^ logK_from n k e acc"
proof (induction n k e acc rule: logK_from.induct)
  case (1 n k e acc)
  show ?case
  proof (cases "n \<le> acc \<or> k < 2 \<or> acc = 0")
    case True
    with "1.prems" have "n \<le> acc" by simp
    with True "1.prems" show ?thesis by (subst logK_from.simps) simp
  next
    case False
    from "1.IH" [OF False] "1.prems" have "n \<le> k ^ logK_from n k (Suc e) (acc * k)"
      by (simp add: mult.commute)
    with False show ?thesis by (subst logK_from.simps) simp
  qed
qed

lemma logK_bound: "2 \<le> k \<Longrightarrow> n \<le> k ^ logK n k"
  unfolding logK_def by (rule logK_from_bound) simp_all

lemma KrKcTree_matrix_eq:
  assumes "mat \<noteq> []" "rect mat" "0 < kr" "0 < kc"
  shows "KrKcTree_matrix mat kr kc null = Some (matTree mat kr kc null)"
proof -
  let ?h = "matH mat kr kc"
  let ?s = "\<lparr>T_of = [], L_of = [], h_of = ?h, kr_of = kr, kc_of = kc,
             numRows_of = kr ^ ?h, numCols_of = kc ^ ?h, null_of = null\<rparr>"
  have h: "Suc (?h - 1) = ?h" by (simp add: matH_def)
  have "buildFromMatrix mat (kr ^ Suc (?h - 1)) (kc ^ Suc (?h - 1)) 1 0 0 ([] @ replicate (?h - 1) [], ?s) =
      Some (ne kr kc null mat (?h - 1) 0 0,
            [] @ lcat (replicate (?h - 1) []) (lev kr kc null mat (?h - 1) 0 0),
            ?s\<lparr>L_of := L_of ?s @ leaves kr kc null mat (?h - 1) 0 0\<rparr>)"
    by (rule build_eq [OF assms(2-4)]) (simp_all add: matH_def)
  then have "buildFromMatrix mat (kr ^ ?h) (kc ^ ?h) 1 0 0 (replicate (?h - 1) [], ?s) =
      Some (ne kr kc null mat (?h - 1) 0 0, lev kr kc null mat (?h - 1) 0 0,
            ?s\<lparr>L_of := leaves kr kc null mat (?h - 1) 0 0\<rparr>)"
    unfolding h by (simp add: lcat_Nil_left)
  then show ?thesis
    using assms(1) unfolding KrKcTree_matrix_def matH_def [symmetric] Let_def
    by (simp add: finish_T_def matTree_def)
qed

lemma matTree_valid:
  assumes "2 \<le> kr" "2 \<le> kc"
  shows "valid (matTree mat kr kc null)"
proof (cases "ne kr kc null mat (matH mat kr kc - 1) 0 0")
  case True
  from wfl_wf_chain [OF wfl_lev [of kr kc null mat "matH mat kr kc - 1" 0 0]] True
  have "wf_chain (kr * kc) (kr * kc) (matH mat kr kc - 1)
      (concat (lev kr kc null mat (matH mat kr kc - 1) 0 0))
      (length (leaves kr kc null mat (matH mat kr kc - 1) 0 0))"
    by simp
  with assms show ?thesis by (simp add: valid_def matTree_def matH_def)
next
  case False
  from not_ne_lev [OF False] assms show ?thesis by (simp add: valid_def matTree_def matH_def)
qed

lemma matTree_cell:
  assumes k: "2 \<le> kr" "2 \<le> kc"
    and b: "p < kr ^ matH mat kr kc" "q < kc ^ matH mat kr kc"
  shows "cell (matTree mat kr kc null) p q = ment mat null p q"
proof -
  let ?h = "matH mat kr kc"
  let ?d = "?h - 1"
  let ?s = "matTree mat kr kc null"
  let ?r = "p mod kr ^ ?d" and ?c = "q mod kc ^ ?d"
  let ?i = "p div kr ^ ?d" and ?j = "q div kc ^ ?d"
  from k have k0: "0 < kr" "0 < kc" by simp_all
  have h: "Suc ?d = ?h" by (simp add: matH_def)
  from b have b': "p < kr ^ Suc ?d" "q < kc ^ Suc ?d" unfolding h .
  have sel: "T_of ?s = concat (lev kr kc null mat ?d 0 0)" "L_of ?s = leaves kr kc null mat ?d 0 0"
    "kr_of ?s = kr" "kc_of ?s = kc" "h_of ?s = ?h" "null_of ?s = null"
    by (simp_all add: matTree_def)
  show ?thesis
  proof (cases "ne kr kc null mat ?d 0 0")
    case False
    from not_ne_null [OF False k0 b'] have "ment mat null p q = null" by simp
    moreover from not_ne_lev [OF False] have "L_of ?s = []" by (simp add: sel)
    ultimately show ?thesis by (simp add: cell_def sel)
  next
    case True
    from b' k0 have ij: "?i < kr" "?j < kc"
      by (auto intro!: less_mult_imp_div_less simp: mult.commute)
    have rc: "?r < kr ^ ?d" "?c < kc ^ ?d" using k0 by simp_all
    have pq: "0 + ?i * kr ^ ?d + ?r = p" "0 + ?j * kc ^ ?d + ?c = q"
      unfolding add_0 div_mult_mod_eq by (rule refl)+
    note N = lpos_lev [OF k0 True ij rc, unfolded pq]
    show ?thesis
    proof (cases "L_of ?s = []")
      case True
      with N show ?thesis
        by (cases "lpos kr kc (lev kr kc null mat ?d 0 0) ?r ?c (?i * kc + ?j)")
          (simp_all add: cell_def sel)
    next
      case False
      have v: "valid ?s" using k by (rule matTree_valid)
      from lvl_root [OF v False] have l: "lvl ?s 0 (kr * kc) ?d" by (simp add: sel)
      have w: "wfl (kr_of ?s * kc_of ?s) (kr * kc) (lev kr kc null mat ?d 0 0)
          (length (leaves kr kc null mat ?d 0 0))"
        using wfl_lev [of kr kc null mat ?d 0 0] \<open>ne kr kc null mat ?d 0 0\<close> by (simp add: sel)
      have x0: "?i * kc + ?j < kr * kc" using ij by (rule slot_less)
      have "pos ?s ?d ?r ?c (0 + (?i * kc + ?j)) =
          map_option (\<lambda>x. length (T_of ?s) + x)
            (lpos (kr_of ?s) (kc_of ?s) (lev kr kc null mat ?d 0 0) ?r ?c (?i * kc + ?j))"
        by (rule pos_lpos [OF _ _ l _ _ w x0]) (simp_all add: sel k0 rc)
      then have t: "tpos ?s p q =
          map_option (\<lambda>x. length (T_of ?s) + x)
            (lpos kr kc (lev kr kc null mat ?d 0 0) ?r ?c (?i * kc + ?j))"
        by (simp add: tpos_def sel)
      from N False show ?thesis
        by (cases "lpos kr kc (lev kr kc null mat ?d 0 0) ?r ?c (?i * kc + ?j)")
          (simp_all add: cell_def t sel(2,6))
    qed
  qed
qed

lemma KrKcTree_matrix_valid:
  assumes "mat \<noteq> []" "rect mat" "2 \<le> kr" "2 \<le> kc" "KrKcTree_matrix mat kr kc null = Some s"
  shows "valid s"
proof -
  from assms(3,4) have "0 < kr" "0 < kc" by simp_all
  from KrKcTree_matrix_eq [OF assms(1,2) this, of null] assms(5) matTree_valid [OF assms(3,4), of mat null]
  show ?thesis by simp
qed

subsection \<open>Point lookup on an object built from a matrix\<close>

text \<open>C1: for a non-empty matrix whose rows all have the length of the first one and arities
  \<open>kr, kc \<ge> 2\<close>, the matrix constructor returns an object whose padded dimensions cover the
  matrix, and on every cell \<open>(i, j)\<close> with \<open>i < numRows\<close> and \<open>j < numCols\<close>
  \<open>getElement\<close> returns the matrix entry when \<open>(i, j)\<close> lies within the extent of the matrix
  and \<open>null\<close> otherwise.\<close>

theorem matrix_constructor_getElement:
  assumes "mat \<noteq> []" "rect mat" "2 \<le> kr" "2 \<le> kc"
  shows "\<exists>s. KrKcTree_matrix mat kr kc null = Some s \<and>
    length mat \<le> numRows_of s \<and> length (mat ! 0) \<le> numCols_of s \<and>
    (\<forall>i j. i < numRows_of s \<longrightarrow> j < numCols_of s \<longrightarrow>
       getElement s i j =
         Some (if i < length mat \<and> j < length (mat ! 0) then mat ! i ! j else null))"
proof -
  let ?s = "matTree mat kr kc null"
  let ?h = "matH mat kr kc"
  from assms(3,4) have k0: "0 < kr" "0 < kc" by simp_all
  have e: "KrKcTree_matrix mat kr kc null = Some ?s"
    by (rule KrKcTree_matrix_eq [OF assms(1,2) k0])
  have v: "valid ?s" by (rule matTree_valid [OF assms(3,4)])
  have dims: "numRows_of ?s = kr ^ ?h" "numCols_of ?s = kc ^ ?h"
    by (simp_all add: matTree_def)
  have "logK (length mat) kr \<le> ?h" "logK (length (mat ! 0)) kc \<le> ?h"
    by (simp_all add: matH_def)
  then have "kr ^ logK (length mat) kr \<le> kr ^ ?h" "kc ^ logK (length (mat ! 0)) kc \<le> kc ^ ?h"
    using k0 by (simp_all add: power_increasing)
  with logK_bound [OF assms(3), of "length mat"] logK_bound [OF assms(4), of "length (mat ! 0)"]
  have cover: "length mat \<le> numRows_of ?s" "length (mat ! 0) \<le> numCols_of ?s"
    unfolding dims by simp_all
  have "getElement ?s i j =
      Some (if i < length mat \<and> j < length (mat ! 0) then mat ! i ! j else null)"
    if "i < numRows_of ?s" "j < numCols_of ?s" for i j
  proof -
    from that have "i < kr ^ ?h" "j < kc ^ ?h" unfolding dims .
    from matTree_cell [OF assms(3,4) this, of null] getElement_cell [OF v that]
    show ?thesis by (simp add: ment_def)
  qed
  with e cover show ?thesis by blast
qed

theorem matrix_constructor_getElement_witness:
  "[[1, 0, 0, 0], [0, 0, 0, 1], [0, 0, 0, 0], [0, 0, 1, 0 :: int]] \<noteq> [] \<and>
   rect [[1, 0, 0, 0], [0, 0, 0, 1], [0, 0, 0, 0], [0, 0, 1, 0 :: int]] \<and>
   KrKcTree_matrix [[1, 0, 0, 0], [0, 0, 0, 1], [0, 0, 0, 0], [0, 0, 1, 0 :: int]] 2 2 0 =
     Some scenarioA \<and>
   numRows_of scenarioA = 4 \<and> numCols_of scenarioA = 4 \<and>
   getElement scenarioA 1 3 = Some 1 \<and> getElement scenarioA 2 1 = Some 0"
proof -
  let ?M = "[[1, 0, 0, 0], [0, 0, 0, 1], [0, 0, 0, 0], [0, 0, 1, 0 :: int]]"
  have r: "rect ?M" by (simp add: rect_def)
  have b: "KrKcTree_matrix ?M 2 2 0 = Some scenarioA" by code_simp
  have d: "numRows_of scenarioA = 4" "numCols_of scenarioA = 4" by (simp_all add: scenarioA_def)
  from matrix_constructor_getElement [of ?M 2 2 0] r
  have "\<forall>i j. i < numRows_of scenarioA \<longrightarrow> j < numCols_of scenarioA \<longrightarrow>
      getElement scenarioA i j =
        Some (if i < length ?M \<and> j < length (?M ! 0) then ?M ! i ! j else 0)"
    unfolding b by simp
  then have g: "\<And>i j. i < 4 \<Longrightarrow> j < 4 \<Longrightarrow> getElement scenarioA i j =
        Some (if i < length ?M \<and> j < length (?M ! 0) then ?M ! i ! j else 0)"
    unfolding d by blast
  from g [of 1 3] g [of 2 1] r b d show ?thesis by simp
qed

lemma blocks_Nil: "blocks k P []"
  by (simp add: blocks_def)

lemma blocks_single: "length g = k \<Longrightarrow> 0 < k \<Longrightarrow> P g \<Longrightarrow> blocks k P g"
  by (simp add: blocks_def)

lemma blocks_append:
  assumes "0 < k" "blocks k P xs" "blocks k P ys"
  shows "blocks k P (xs @ ys)"
proof -
  from assms(2) obtain m where m: "length xs = m * k"
    unfolding blocks_def by (metis mod_eq_0_iff_dvd dvd_def mult.commute)
  from assms(3) obtain n where n: "length ys = n * k"
    unfolding blocks_def by (metis mod_eq_0_iff_dvd dvd_def mult.commute)
  from assms(1) m have dm: "length xs div k = m" by simp
  from assms(1) n have dn: "length ys div k = n" by simp
  have len: "length (xs @ ys) = (m + n) * k" by (simp add: m n distrib_right)
  with assms(1) have dmn: "length (xs @ ys) div k = m + n" by simp
  have "P (take k (drop (g * k) (xs @ ys)))" if g: "g < m + n" for g
  proof (cases "g < m")
    case True
    then have "Suc g \<le> m" by simp
    then have "Suc g * k \<le> m * k" by (rule mult_le_mono1)
    then have "g * k + k \<le> length xs" by (simp add: m)
    then have "k \<le> length xs - g * k" by simp
    then have "k - (length xs - g * k) = 0" by simp
    then have e: "take k (drop (g * k) (xs @ ys)) = take k (drop (g * k) xs)" by simp
    from assms(2) True have "P (take k (drop (g * k) xs))"
      by (simp add: blocks_def dm list_all_iff)
    then show ?thesis unfolding e .
  next
    case False
    then have "m \<le> g" by simp
    then have "m * k \<le> g * k" by (rule mult_le_mono1)
    moreover from \<open>m \<le> g\<close> have "g * k - m * k = (g - m) * k" by (simp add: diff_mult_distrib)
    ultimately have e: "drop (g * k) (xs @ ys) = drop ((g - m) * k) ys" by (simp add: m)
    from g False have "g - m < n" by simp
    with assms(3) have "P (take k (drop ((g - m) * k) ys))"
      by (simp add: blocks_def dn list_all_iff)
    then show ?thesis unfolding e .
  qed
  then show ?thesis
    unfolding blocks_def dmn len by (simp add: list_all_iff)
qed

lemma blocks_concat:
  "0 < k \<Longrightarrow> \<forall>xs \<in> set xss. blocks k P xs \<Longrightarrow> blocks k P (concat xss)"
  by (induction xss) (simp_all add: blocks_Nil blocks_append)

lemma leaves_blocks:
  assumes "0 < kr" "0 < kc"
  shows "blocks (kr * kc) (list_ex (\<lambda>v. v \<noteq> null)) (leaves kr kc null mat d p q)"
proof (induction d arbitrary: p q)
  case 0
  show ?case
  proof (cases "ne kr kc null mat 0 p q")
    case True
    then have "list_ex (\<lambda>v. v \<noteq> null) (map (\<lambda>(i, j). ment mat null (p + i) (q + j)) (slots kr kc))"
      by (simp add: isAll_def list_all_iff list_ex_iff)
    with True assms show ?thesis
      by (simp add: blocks_single)
  next
    case False
    then show ?thesis by (simp add: blocks_Nil)
  qed
next
  case (Suc d)
  from assms have "0 < kr * kc" by simp
  then show ?case
    unfolding leaves.simps by (rule blocks_concat) (auto simp: Suc.IH)
qed

lemma lcat_all: "list_all B xs \<Longrightarrow> list_all B ys \<Longrightarrow> (\<And>x y. B x \<Longrightarrow> B y \<Longrightarrow> B (x @ y)) \<Longrightarrow>
  list_all B (lcat xs ys)"
proof (induction xs arbitrary: ys)
  case Nil
  then show ?case by (simp add: lcat_def)
next
  case (Cons x xs)
  then show ?case by (cases ys) (simp_all add: lcat_def)
qed

lemma zipcat_all:
  assumes "\<And>x y. B x \<Longrightarrow> B y \<Longrightarrow> B (x @ y)" "B []"
  shows "\<forall>xs \<in> set xss. list_all B xs \<Longrightarrow> list_all B (zipcat d xss)"
proof (induction xss)
  case Nil
  from assms(2) show ?case by (simp add: zipcat_Nil list_all_iff)
next
  case (Cons xs xss)
  then show ?case
    unfolding zipcat_Cons by (intro lcat_all assms(1)) simp_all
qed

lemma lev_blocks:
  assumes "0 < kr" "0 < kc"
  shows "list_all (blocks (kr * kc) (list_ex (\<lambda>b. b))) (lev kr kc null mat d p q)"
proof (induction d arbitrary: p q)
  case 0
  show ?case by simp
next
  case (Suc d)
  from assms have k: "0 < kr * kc" by simp
  let ?B = "blocks (kr * kc) (list_ex (\<lambda>b. b))"
  let ?G = "map (\<lambda>(i, j). ne kr kc null mat d (p + i * kr ^ Suc d) (q + j * kc ^ Suc d)) (slots kr kc)"
  have app: "\<And>x y. ?B x \<Longrightarrow> ?B y \<Longrightarrow> ?B (x @ y)" using k by (rule blocks_append)
  have "list_all ?B (zipcat d (map (\<lambda>(i, j). lev kr kc null mat d (p + i * kr ^ Suc d)
      (q + j * kc ^ Suc d)) (slots kr kc)))"
    by (rule zipcat_all [OF app blocks_Nil]) (auto simp: Suc.IH)
  moreover have "?B (if ne kr kc null mat (Suc d) p q then ?G else [])"
  proof (cases "ne kr kc null mat (Suc d) p q")
    case True
    then have "list_ex (\<lambda>b. b) ?G"
      unfolding ne.simps isAllZero_def by (simp add: list_all_iff list_ex_iff)
    with True k show ?thesis by (simp add: blocks_single)
  next
    case False
    then show ?thesis by (simp add: blocks_Nil)
  qed
  ultimately show ?case unfolding lev.simps by simp
qed

lemma matTree_pruned:
  assumes "0 < kr" "0 < kc"
  shows "pruned (matTree mat kr kc null)"
proof -
  from assms have k: "0 < kr * kc" by simp
  from lev_blocks [OF assms, of null mat "matH mat kr kc - 1" 0 0]
  have "blocks (kr * kc) (list_ex (\<lambda>b. b)) (concat (lev kr kc null mat (matH mat kr kc - 1) 0 0))"
    by (intro blocks_concat k) (simp add: list_all_iff)
  with leaves_blocks [OF assms, of null mat "matH mat kr kc - 1" 0 0]
  show ?thesis
    by (simp add: pruned_def matTree_def blocks_def)
qed

lemma KrKcTree_matrix_pruned:
  assumes "mat \<noteq> []" "rect mat" "2 \<le> kr" "2 \<le> kc" "KrKcTree_matrix mat kr kc null = Some s"
  shows "pruned s"
proof -
  from assms(3,4) have k: "0 < kr" "0 < kc" by simp_all
  from KrKcTree_matrix_eq [OF assms(1,2) k, of null] assms(5) matTree_pruned [OF k, of mat null]
  show ?thesis by simp
qed

end
